theory Spec2Isabelle
  imports Main "HOL-Library.AList"
begin

section \<open>Pessoas API: versioned rows, event log and replay (app/main.py)\<close>

text \<open>
  The handlers of \<^verbatim>\<open>app/main.py\<close> are embedded as functions over an explicit store
  holding the two tables \<^verbatim>\<open>pessoa\<close> and \<^verbatim>\<open>pessoa_event\<close>. A handler takes the store as
  it is when the request starts and returns the store the request leaves behind together
  with either the error it raised or the row it returned. The time the database reads
  with \<^verbatim>\<open>now()\<close> during the request is the parameter \<open>now\<close> of the handler. The
  routing and the validation of the request bodies by the framework are not part of the
  embedding.
\<close>

subsection \<open>Values\<close>

text \<open>
  JSON columns hold Python dictionaries from strings to JSON scalars. A dictionary is an
  association list in insertion order: \<^verbatim>\<open>d[k] = v\<close> is \<open>AList.update k v d\<close> (an existing
  key keeps its place, a new key goes to the end), \<^verbatim>\<open>k in d\<close> and \<^verbatim>\<open>d[k]\<close> read
  \<open>map_of d k\<close>, and \<^verbatim>\<open>not d\<close> is \<open>d = []\<close>.
\<close>

datatype json = JNull | JBool bool | JInt int | JStr string

type_synonym dict = "(string \<times> json) list"

text \<open>
  \<^verbatim>\<open>datetime.date\<close>: a year, a month and a day. \<^verbatim>\<open>isoformat\<close> prints
  \<^verbatim>\<open>YYYY-MM-DD\<close>; \<^verbatim>\<open>date.fromisoformat\<close> reads that form back and raises ValueError on
  any other text or on a day the calendar does not have.
\<close>

datatype date = Date (year: nat) (month: nat) (day: nat)

definition is_leap :: "nat \<Rightarrow> bool" where
  "is_leap y = (y mod 4 = 0 \<and> (y mod 100 \<noteq> 0 \<or> y mod 400 = 0))"

definition days_in_month :: "nat \<Rightarrow> nat \<Rightarrow> nat" where
  "days_in_month y m =
     (if m = 2 then (if is_leap y then 29 else 28)
      else if m = 4 \<or> m = 6 \<or> m = 9 \<or> m = 11 then 30 else 31)"

definition valid_date :: "date \<Rightarrow> bool" where
  "valid_date d =
     (1 \<le> year d \<and> year d \<le> 9999 \<and> 1 \<le> month d \<and> month d \<le> 12 \<and>
      1 \<le> day d \<and> day d \<le> days_in_month (year d) (month d))"

definition digit_char :: "nat \<Rightarrow> char" where
  "digit_char n = ''0123456789'' ! (n mod 10)"

definition digit_val :: "char \<Rightarrow> nat option" where
  "digit_val c =
     map_of [(CHR ''0'', 0), (CHR ''1'', 1), (CHR ''2'', 2), (CHR ''3'', 3), (CHR ''4'', 4),
             (CHR ''5'', 5), (CHR ''6'', 6), (CHR ''7'', 7), (CHR ''8'', 8), (CHR ''9'', 9)] c"

definition pad2 :: "nat \<Rightarrow> string" where
  "pad2 n = [digit_char (n div 10), digit_char n]"

definition pad4 :: "nat \<Rightarrow> string" where
  "pad4 n = [digit_char (n div 1000), digit_char (n div 100), digit_char (n div 10), digit_char n]"

definition isoformat :: "date \<Rightarrow> string" where
  "isoformat d = pad4 (year d) @ ''-'' @ pad2 (month d) @ ''-'' @ pad2 (day d)"

fun digits_val :: "string \<Rightarrow> nat \<Rightarrow> nat option" where
  "digits_val [] acc = Some acc"
| "digits_val (c # cs) acc =
     (case digit_val c of None \<Rightarrow> None | Some n \<Rightarrow> digits_val cs (10 * acc + n))"

definition fromisoformat :: "string \<Rightarrow> date option" where
  "fromisoformat s =
     (if length s = 10 \<and> s ! 4 = CHR ''-'' \<and> s ! 7 = CHR ''-'' then
        (case (digits_val (take 4 s) 0, digits_val (take 2 (drop 5 s)) 0,
               digits_val (drop 8 s) 0) of
           (Some y, Some m, Some d) \<Rightarrow>
             (if valid_date (Date y m d) then Some (Date y m d) else None)
         | _ \<Rightarrow> None)
      else None)"

text \<open>
  \<^verbatim>\<open>datetime.datetime\<close>: the handlers only copy a timestamp into a row or print it into
  a snapshot, so a timestamp is carried as its ISO-8601 text.
\<close>

datatype datetime = DateTime string

fun dt_isoformat :: "datetime \<Rightarrow> string" where
  "dt_isoformat (DateTime s) = s"

subsection \<open>Models: the two tables\<close>

text \<open>
  \<^verbatim>\<open>class Pessoa\<close>. The column \<^verbatim>\<open>id\<close> is \<open>p_id\<close> here. The timestamps are filled in
  by the database at flush, so they are optional on the object.
\<close>

record Pessoa =
  p_id :: int
  nome :: string
  cpf :: string
  data_nascimento :: date
  version :: int
  deleted :: bool
  updated_at :: "datetime option"
  created_at :: "datetime option"

text \<open>\<^verbatim>\<open>class PessoaEvent\<close>. The columns \<^verbatim>\<open>id\<close> and \<^verbatim>\<open>created_at\<close> are \<open>e_id\<close> and
  \<open>e_created_at\<close>.\<close>

record PessoaEvent =
  e_id :: int
  pessoa_id :: int
  base_version :: int
  new_version :: int
  changes :: dict
  state_after :: dict
  e_created_at :: "datetime option"

record store =
  pessoas :: "Pessoa list"
  pessoa_events :: "PessoaEvent list"

definition empty_store :: store where
  "empty_store = \<lparr>pessoas = [], pessoa_events = []\<rparr>"

subsection \<open>Schemas: the request bodies\<close>

text \<open>\<^verbatim>\<open>class PessoaCreate\<close> (fields \<^verbatim>\<open>nome\<close>, \<^verbatim>\<open>cpf\<close>, \<^verbatim>\<open>data_nascimento\<close>).\<close>

record PessoaCreate =
  new_nome :: string
  new_cpf :: string
  new_data_nascimento :: date

text \<open>\<^verbatim>\<open>class PessoaPatch\<close> (fields \<^verbatim>\<open>version\<close>, \<^verbatim>\<open>nome\<close>, \<^verbatim>\<open>cpf\<close>,
  \<^verbatim>\<open>data_nascimento\<close>; an absent field is \<open>None\<close>).\<close>

record PessoaPatch =
  client_version :: int
  patch_nome :: "string option"
  patch_cpf :: "string option"
  patch_data_nascimento :: "date option"

subsection \<open>Errors\<close>

text \<open>
  Every exception a handler can raise. The first six are the \<^verbatim>\<open>HTTPException\<close>s of the
  source, in the order 404 (person not found), 400 (invalid version), 409 (CPF already in
  use), 409 (client version ahead of the server), 409 (stale version for DELETE),
  409 (requested version missing from the log). The others come from the libraries:
  \<^verbatim>\<open>one_or_none\<close> on several rows, the unique index on \<^verbatim>\<open>cpf\<close> at flush, a missing
  dictionary key, \<^verbatim>\<open>date.fromisoformat\<close> on a text that is no date, and a value that is
  not a string where a string column is written.
\<close>

datatype error =
    NotFound | InvalidVersion | Conflict | VersionAhead | Stale | VersionNotFound
  | MultipleResultsFound | IntegrityError | KeyError string | ValueError | TypeError

subsection \<open>Queries and flushes\<close>

fun one_or_none :: "'a list \<Rightarrow> error + 'a option" where
  "one_or_none [] = Inr None"
| "one_or_none [x] = Inr (Some x)"
| "one_or_none (x # y # zs) = Inl MultipleResultsFound"

text \<open>\<^verbatim>\<open>sess.query(Pessoa).filter(Pessoa.id == pessoa_id, Pessoa.deleted == False).one_or_none()\<close>\<close>

definition find_pessoa :: "store \<Rightarrow> int \<Rightarrow> error + Pessoa option" where
  "find_pessoa s pessoa_id' =
     one_or_none (filter (\<lambda>q. p_id q = pessoa_id' \<and> \<not> deleted q) (pessoas s))"

text \<open>Autoincrement: the database gives a new row a key above every key of the table.\<close>

definition next_id :: "int list \<Rightarrow> int" where
  "next_id ks = fold max ks 0 + 1"

text \<open>
  Flushing a new \<^verbatim>\<open>Pessoa\<close>: the unique index on \<^verbatim>\<open>cpf\<close> (all rows, deleted ones too)
  rejects a duplicate; otherwise the row gets its key and both timestamps.
\<close>

definition flush_insert :: "store \<Rightarrow> datetime \<Rightarrow> Pessoa \<Rightarrow> error + (store \<times> Pessoa)" where
  "flush_insert s now p =
     (if \<exists>q \<in> set (pessoas s). cpf q = cpf p then Inl IntegrityError
      else
        let p' = p\<lparr>p_id := next_id (map p_id (pessoas s)),
                   updated_at := Some now, created_at := Some now\<rparr>
        in Inr (s\<lparr>pessoas := pessoas s @ [p']\<rparr>, p'))"

text \<open>
  Flushing a changed \<^verbatim>\<open>Pessoa\<close>: the unique index rejects a \<^verbatim>\<open>cpf\<close> another row holds;
  otherwise the row is rewritten and \<^verbatim>\<open>onupdate\<close> sets \<^verbatim>\<open>updated_at\<close>.
\<close>

definition flush_update :: "store \<Rightarrow> datetime \<Rightarrow> Pessoa \<Rightarrow> error + (store \<times> Pessoa)" where
  "flush_update s now p =
     (if \<exists>q \<in> set (pessoas s). p_id q \<noteq> p_id p \<and> cpf q = cpf p then Inl IntegrityError
      else
        let p' = p\<lparr>updated_at := Some now\<rparr>
        in Inr (s\<lparr>pessoas := map (\<lambda>q. if p_id q = p_id p then p' else q) (pessoas s)\<rparr>, p'))"

subsection \<open>Helpers\<close>

definition opt_iso :: "datetime option \<Rightarrow> json" where
  "opt_iso t = (case t of None \<Rightarrow> JNull | Some x \<Rightarrow> JStr (dt_isoformat x))"

definition pessoa_to_dict :: "Pessoa \<Rightarrow> dict" where
  "pessoa_to_dict p =
     [(''id'', JInt (p_id p)),
      (''nome'', JStr (nome p)),
      (''cpf'', JStr (cpf p)),
      (''data_nascimento'', JStr (isoformat (data_nascimento p))),
      (''version'', JInt (version p)),
      (''deleted'', JBool (deleted p)),
      (''updated_at'', opt_iso (updated_at p))]"

text \<open>\<^verbatim>\<open>apply_changes\<close>: copy the base state, then store every item of the delta.\<close>

fun store_items :: "dict \<Rightarrow> dict \<Rightarrow> dict" where
  "store_items new_state [] = new_state"
| "store_items new_state ((k, v) # items) = store_items (AList.update k v new_state) items"

definition apply_changes :: "dict \<Rightarrow> dict \<Rightarrow> dict" where
  "apply_changes base_state changes' = store_items base_state changes'"

definition snapshot_at_version :: "store \<Rightarrow> int \<Rightarrow> int \<Rightarrow> error + dict" where
  "snapshot_at_version s pessoa_id' target_version =
     (case one_or_none (filter (\<lambda>e. pessoa_id e = pessoa_id' \<and> new_version e = target_version)
                          (pessoa_events s)) of
        Inl err \<Rightarrow> Inl err
      | Inr None \<Rightarrow> Inl VersionNotFound
      | Inr (Some ev) \<Rightarrow> Inr (state_after ev))"

text \<open>The query of \<^verbatim>\<open>replay_forward\<close>: the events after \<open>from_version\<close> up to
  \<open>to_version\<close>, by ascending \<^verbatim>\<open>new_version\<close>.\<close>

definition events_between :: "store \<Rightarrow> int \<Rightarrow> int \<Rightarrow> int \<Rightarrow> PessoaEvent list" where
  "events_between s pessoa_id' from_version to_version =
     sort_key new_version
       (filter (\<lambda>e. pessoa_id e = pessoa_id' \<and> new_version e > from_version
                    \<and> new_version e \<le> to_version) (pessoa_events s))"

fun replay_events :: "PessoaEvent list \<Rightarrow> dict \<Rightarrow> dict" where
  "replay_events [] st = st"
| "replay_events (ev # evs) st = replay_events evs (apply_changes st (changes ev))"

definition replay_forward :: "store \<Rightarrow> int \<Rightarrow> int \<Rightarrow> int \<Rightarrow> dict \<Rightarrow> dict" where
  "replay_forward s pessoa_id' from_version to_version state =
     (if to_version \<le> from_version then state
      else replay_events (events_between s pessoa_id' from_version to_version) state)"

definition persist_event :: "store \<Rightarrow> datetime \<Rightarrow> Pessoa \<Rightarrow> int \<Rightarrow> dict \<Rightarrow> store" where
  "persist_event s now pessoa base_version' changes' =
     s\<lparr>pessoa_events := pessoa_events s @
         [\<lparr>e_id = next_id (map e_id (pessoa_events s)),
           pessoa_id = p_id pessoa,
           base_version = base_version',
           new_version = version pessoa,
           changes = changes',
           state_after = pessoa_to_dict pessoa,
           e_created_at = Some now\<rparr>]\<rparr>"

text \<open>Reading a string out of a dictionary: \<^verbatim>\<open>d[k]\<close> raises KeyError on a missing key,
  and a value that is no string cannot go into a string column or into
  \<^verbatim>\<open>date.fromisoformat\<close>.\<close>

definition get_str :: "dict \<Rightarrow> string \<Rightarrow> error + string" where
  "get_str d k =
     (case map_of d k of
        None \<Rightarrow> Inl (KeyError k)
      | Some (JStr x) \<Rightarrow> Inr x
      | Some _ \<Rightarrow> Inl TypeError)"

definition parse_date :: "string \<Rightarrow> error + date" where
  "parse_date x = (case fromisoformat x of None \<Rightarrow> Inl ValueError | Some d \<Rightarrow> Inr d)"

text \<open>A transaction that raises is rolled back when the session closes: the handler
  leaves the store as it found it.\<close>

definition run_txn :: "store \<Rightarrow> (error + (store \<times> 'a)) \<Rightarrow> store \<times> (error + 'a)" where
  "run_txn s r = (case r of Inl err \<Rightarrow> (s, Inl err) | Inr (s', x) \<Rightarrow> (s', Inr x))"

subsection \<open>Handlers\<close>

definition get_pessoa :: "store \<Rightarrow> int \<Rightarrow> error + Pessoa" where
  "get_pessoa s pessoa_id' =
     (case find_pessoa s pessoa_id' of
        Inl err \<Rightarrow> Inl err
      | Inr None \<Rightarrow> Inl NotFound
      | Inr (Some p) \<Rightarrow> Inr p)"

definition create_pessoa_txn :: "store \<Rightarrow> datetime \<Rightarrow> PessoaCreate \<Rightarrow> error + (store \<times> Pessoa)" where
  "create_pessoa_txn s now payload =
     (case one_or_none (filter (\<lambda>q. cpf q = new_cpf payload \<and> \<not> deleted q) (pessoas s)) of
        Inl err \<Rightarrow> Inl err
      | Inr (Some exists) \<Rightarrow> Inl Conflict
      | Inr None \<Rightarrow>
          (case flush_insert s now
                  \<lparr>p_id = 0, nome = new_nome payload, cpf = new_cpf payload,
                   data_nascimento = new_data_nascimento payload, version = 1,
                   deleted = False, updated_at = None, created_at = None\<rparr> of
             Inl err \<Rightarrow> Inl err
           | Inr (s1, p) \<Rightarrow>
               Inr (persist_event s1 now p 0
                      [(''nome'', JStr (nome p)),
                       (''cpf'', JStr (cpf p)),
                       (''data_nascimento'', JStr (isoformat (data_nascimento p))),
                       (''deleted'', JBool False)], p)))"

definition create_pessoa :: "store \<Rightarrow> datetime \<Rightarrow> PessoaCreate \<Rightarrow> store \<times> (error + Pessoa)" where
  "create_pessoa s now payload = run_txn s (create_pessoa_txn s now payload)"

text \<open>The changes the client sent, in the order the handler collects them; the
  uniqueness of a sent \<^verbatim>\<open>cpf\<close> among the other live rows is checked on the way.\<close>

definition provided_changes_of :: "store \<Rightarrow> int \<Rightarrow> PessoaPatch \<Rightarrow> error + dict" where
  "provided_changes_of s pessoa_id' payload =
     (let pc1 = (case patch_nome payload of
                   None \<Rightarrow> []
                 | Some n \<Rightarrow> AList.update ''nome'' (JStr n) [])
      in case (case patch_cpf payload of
                 None \<Rightarrow> Inr pc1
               | Some c \<Rightarrow>
                   (case one_or_none (filter (\<lambda>q. cpf q = c \<and> p_id q \<noteq> pessoa_id' \<and> \<not> deleted q)
                                        (pessoas s)) of
                      Inl err \<Rightarrow> Inl err
                    | Inr (Some other) \<Rightarrow> Inl Conflict
                    | Inr None \<Rightarrow> Inr (AList.update ''cpf'' (JStr c) pc1))) of
           Inl err \<Rightarrow> Inl err
         | Inr pc2 \<Rightarrow>
             (case patch_data_nascimento payload of
                None \<Rightarrow> Inr pc2
              | Some d \<Rightarrow> Inr (AList.update ''data_nascimento'' (JStr (isoformat d)) pc2)))"

text \<open>The direct path (\<^verbatim>\<open>client_version == current_version\<close>).\<close>

definition patch_direct :: "store \<Rightarrow> datetime \<Rightarrow> Pessoa \<Rightarrow> dict \<Rightarrow> error + (store \<times> Pessoa)" where
  "patch_direct s now p provided_changes =
     (let current_version = version p in
      case (if map_of provided_changes ''nome'' \<noteq> None
            then (case get_str provided_changes ''nome'' of
                    Inl err \<Rightarrow> Inl err | Inr x \<Rightarrow> Inr (p\<lparr>nome := x\<rparr>))
            else Inr p) of
        Inl err \<Rightarrow> Inl err
      | Inr p1 \<Rightarrow>
      case (if map_of provided_changes ''cpf'' \<noteq> None
            then (case get_str provided_changes ''cpf'' of
                    Inl err \<Rightarrow> Inl err | Inr x \<Rightarrow> Inr (p1\<lparr>cpf := x\<rparr>))
            else Inr p1) of
        Inl err \<Rightarrow> Inl err
      | Inr p2 \<Rightarrow>
      case (if map_of provided_changes ''data_nascimento'' \<noteq> None
            then (case get_str provided_changes ''data_nascimento'' of
                    Inl err \<Rightarrow> Inl err
                  | Inr x \<Rightarrow>
                      (case parse_date x of
                         Inl err \<Rightarrow> Inl err | Inr d \<Rightarrow> Inr (p2\<lparr>data_nascimento := d\<rparr>)))
            else Inr p2) of
        Inl err \<Rightarrow> Inl err
      | Inr p3 \<Rightarrow>
      case flush_update s now (p3\<lparr>version := current_version + 1\<rparr>) of
        Inl err \<Rightarrow> Inl err
      | Inr (s1, p4) \<Rightarrow> Inr (persist_event s1 now p4 current_version provided_changes, p4))"

text \<open>The replay path (\<^verbatim>\<open>client_version < current_version\<close>). The dictionary
  \<^verbatim>\<open>prev_state\<close> that the handler builds after the flush is never read and is left out;
  the changes of the event are \<^verbatim>\<open>changes_now\<close>, the three fields of the reconciled row.\<close>

definition patch_replay ::
  "store \<Rightarrow> datetime \<Rightarrow> int \<Rightarrow> Pessoa \<Rightarrow> int \<Rightarrow> dict \<Rightarrow> error + (store \<times> Pessoa)" where
  "patch_replay s now pessoa_id' p client_version' provided_changes =
     (let current_version = version p in
      case snapshot_at_version s pessoa_id' client_version' of
        Inl err \<Rightarrow> Inl err
      | Inr base_snapshot \<Rightarrow>
      let merged = apply_changes base_snapshot provided_changes;
          final_state = replay_forward s pessoa_id' client_version' current_version merged
      in
      case get_str final_state ''nome'' of
        Inl err \<Rightarrow> Inl err
      | Inr n \<Rightarrow>
      case get_str final_state ''cpf'' of
        Inl err \<Rightarrow> Inl err
      | Inr c \<Rightarrow>
      case get_str final_state ''data_nascimento'' of
        Inl err \<Rightarrow> Inl err
      | Inr x \<Rightarrow>
      case parse_date x of
        Inl err \<Rightarrow> Inl err
      | Inr d \<Rightarrow>
      case flush_update s now
             (p\<lparr>nome := n, cpf := c, data_nascimento := d, version := current_version + 1\<rparr>) of
        Inl err \<Rightarrow> Inl err
      | Inr (s1, p1) \<Rightarrow>
          Inr (persist_event s1 now p1 current_version
                 [(''nome'', JStr (nome p1)),
                  (''cpf'', JStr (cpf p1)),
                  (''data_nascimento'', JStr (isoformat (data_nascimento p1)))], p1))"

definition patch_pessoa_txn ::
  "store \<Rightarrow> datetime \<Rightarrow> int \<Rightarrow> PessoaPatch \<Rightarrow> error + (store \<times> Pessoa)" where
  "patch_pessoa_txn s now pessoa_id' payload =
     (case find_pessoa s pessoa_id' of
        Inl err \<Rightarrow> Inl err
      | Inr None \<Rightarrow> Inl NotFound
      | Inr (Some p) \<Rightarrow>
          (let current_version = version p;
               client_version' = client_version payload
           in
           if client_version' \<le> 0 then Inl InvalidVersion
           else
             case provided_changes_of s pessoa_id' payload of
               Inl err \<Rightarrow> Inl err
             | Inr provided_changes \<Rightarrow>
                 if provided_changes = [] then Inr (s, p)
                 else if client_version' = current_version
                 then patch_direct s now p provided_changes
                 else if client_version' > current_version then Inl VersionAhead
                 else patch_replay s now pessoa_id' p client_version' provided_changes))"

definition patch_pessoa ::
  "store \<Rightarrow> datetime \<Rightarrow> int \<Rightarrow> PessoaPatch \<Rightarrow> store \<times> (error + Pessoa)" where
  "patch_pessoa s now pessoa_id' payload = run_txn s (patch_pessoa_txn s now pessoa_id' payload)"

definition delete_pessoa_txn :: "store \<Rightarrow> datetime \<Rightarrow> int \<Rightarrow> int \<Rightarrow> error + (store \<times> Pessoa)" where
  "delete_pessoa_txn s now pessoa_id' version' =
     (case find_pessoa s pessoa_id' of
        Inl err \<Rightarrow> Inl err
      | Inr None \<Rightarrow> Inl NotFound
      | Inr (Some p) \<Rightarrow>
          if version' < version p then Inl Stale
          else
            (let base_version' = version p in
             case flush_update s now (p\<lparr>deleted := True, version := version p + 1\<rparr>) of
               Inl err \<Rightarrow> Inl err
             | Inr (s1, p1) \<Rightarrow>
                 Inr (persist_event s1 now p1 base_version' [(''deleted'', JBool True)], p1)))"

definition delete_pessoa :: "store \<Rightarrow> datetime \<Rightarrow> int \<Rightarrow> int \<Rightarrow> store \<times> (error + Pessoa)" where
  "delete_pessoa s now pessoa_id' version' = run_txn s (delete_pessoa_txn s now pessoa_id' version')"


subsection \<open>Predicates and auxiliary functions of the properties\<close>

text \<open>A proof device for \<open>store_items\<close>: \<open>overlay m t\<close> rewrites, in place, the first
  entry of every key that \<open>m\<close> binds.\<close>

fun overlay :: "('k \<rightharpoonup> 'v) \<Rightarrow> ('k \<times> 'v) list \<Rightarrow> ('k \<times> 'v) list" where
  "overlay m [] = []"
| "overlay m ((k, x) # r) =
     (case m k of None \<Rightarrow> (k, x) # overlay m r | Some v \<Rightarrow> (k, v) # overlay (m(k := None)) r)"

text \<open>The events of one person, in the order they were inserted.\<close>

definition events_of :: "store \<Rightarrow> int \<Rightarrow> PessoaEvent list" where
  "events_of s i = filter (\<lambda>e. pessoa_id e = i) (pessoa_events s)"

text \<open>
  The numbering of the log: the rows have distinct keys, every event belongs to a row,
  and the events of each person, in insertion order, carry the new versions 1, 2, ... up
  to the person's current version, each with the version before it as base version.
\<close>

definition log_invariant :: "store \<Rightarrow> bool" where
  "log_invariant s \<longleftrightarrow>
     distinct (map p_id (pessoas s)) \<and>
     (\<forall>e \<in> set (pessoa_events s). pessoa_id e \<in> p_id ` set (pessoas s)) \<and>
     (\<forall>p \<in> set (pessoas s).
        1 \<le> version p \<and>
        map new_version (events_of s (p_id p)) = [1..version p] \<and>
        (\<forall>e \<in> set (events_of s (p_id p)). base_version e = new_version e - 1))"

text \<open>\<open>s'\<close> is \<open>s\<close> with exactly one more event, which takes person \<open>i\<close> from version
  \<open>v\<close> to version \<open>v + 1\<close>.\<close>

definition one_event_appended :: "store \<Rightarrow> store \<Rightarrow> int \<Rightarrow> int \<Rightarrow> bool" where
  "one_event_appended s s' i v \<longleftrightarrow>
     pessoa_events s' \<noteq> [] \<and> butlast (pessoa_events s') = pessoa_events s \<and>
     pessoa_id (last (pessoa_events s')) = i \<and>
     base_version (last (pessoa_events s')) = v \<and>
     new_version (last (pessoa_events s')) = v + 1"

text \<open>The keys a delta can hold, and the keys of a snapshot.\<close>

definition delta_keys :: "string list" where
  "delta_keys = [''nome'', ''cpf'', ''data_nascimento'', ''deleted'']"

definition snapshot_keys :: "string list" where
  "snapshot_keys = [''id'', ''nome'', ''cpf'', ''data_nascimento'', ''version'', ''deleted'',
                    ''updated_at'']"

definition same_fields :: "dict \<Rightarrow> dict \<Rightarrow> bool" where
  "same_fields d d' \<longleftrightarrow> (\<forall>k \<in> set delta_keys. map_of d k = map_of d' k)"

text \<open>Each event's snapshot is, on the keys of a delta, the snapshot before it with the
  event's changes applied.\<close>

fun chain_ok :: "dict \<Rightarrow> PessoaEvent list \<Rightarrow> bool" where
  "chain_ok st [] = True"
| "chain_ok st (e # es) =
     (same_fields (state_after e) (apply_changes st (changes e)) \<and> chain_ok (state_after e) es)"

definition event_ok :: "PessoaEvent \<Rightarrow> bool" where
  "event_ok e \<longleftrightarrow>
     map fst (state_after e) = snapshot_keys \<and>
     map_of (state_after e) ''id'' = Some (JInt (pessoa_id e)) \<and>
     map_of (state_after e) ''version'' = Some (JInt (new_version e)) \<and>
     set (map fst (changes e)) \<subseteq> set delta_keys"

definition replay_invariant :: "store \<Rightarrow> bool" where
  "replay_invariant s \<longleftrightarrow>
     (\<forall>e \<in> set (pessoa_events s). event_ok e) \<and>
     (\<forall>p \<in> set (pessoas s).
        (case events_of s (p_id p) of
           [] \<Rightarrow> False
         | e # es \<Rightarrow> chain_ok (state_after e) es \<and>
                     state_after (last (e # es)) = pessoa_to_dict p))"

text \<open>The stores the handlers can produce, starting from the empty tables.\<close>

inductive reachable :: "store \<Rightarrow> bool" where
  reachable_init: "reachable empty_store"
| reachable_create: "reachable s \<Longrightarrow> reachable (fst (create_pessoa s now payload))"
| reachable_patch: "reachable s \<Longrightarrow> reachable (fst (patch_pessoa s now i payload))"
| reachable_delete: "reachable s \<Longrightarrow> reachable (fst (delete_pessoa s now i v))"

subsection \<open>A sample history\<close>

text \<open>
  A person is created (version 1, name A), renamed to B by a client that knows version 1
  (version 2), and then a client that still claims version 1 sends a new CPF (version 3,
  through the replay path).
\<close>

definition t1 :: datetime where "t1 = DateTime ''2024-01-01T10:00:00''"
definition t2 :: datetime where "t2 = DateTime ''2024-01-02T10:00:00''"
definition t3 :: datetime where "t3 = DateTime ''2024-01-03T10:00:00''"
definition t4 :: datetime where "t4 = DateTime ''2024-01-04T10:00:00''"

definition ex_create :: PessoaCreate where
  "ex_create = \<lparr>new_nome = ''A'', new_cpf = ''111'', new_data_nascimento = Date 1990 5 17\<rparr>"

definition ex_p1 :: Pessoa where
  "ex_p1 = \<lparr>p_id = 1, nome = ''A'', cpf = ''111'', data_nascimento = Date 1990 5 17,
            version = 1, deleted = False, updated_at = Some t1, created_at = Some t1\<rparr>"

definition ex_e1 :: PessoaEvent where
  "ex_e1 = \<lparr>e_id = 1, pessoa_id = 1, base_version = 0, new_version = 1,
            changes = [(''nome'', JStr ''A''), (''cpf'', JStr ''111''),
                       (''data_nascimento'', JStr ''1990-05-17''), (''deleted'', JBool False)],
            state_after = [(''id'', JInt 1), (''nome'', JStr ''A''), (''cpf'', JStr ''111''),
                           (''data_nascimento'', JStr ''1990-05-17''), (''version'', JInt 1),
                           (''deleted'', JBool False),
                           (''updated_at'', JStr ''2024-01-01T10:00:00'')],
            e_created_at = Some t1\<rparr>"

definition ex_s1 :: store where
  "ex_s1 = \<lparr>pessoas = [ex_p1], pessoa_events = [ex_e1]\<rparr>"

definition ex_patch_nome :: PessoaPatch where
  "ex_patch_nome = \<lparr>client_version = 1, patch_nome = Some ''B'', patch_cpf = None,
                    patch_data_nascimento = None\<rparr>"

definition ex_p2 :: Pessoa where
  "ex_p2 = \<lparr>p_id = 1, nome = ''B'', cpf = ''111'', data_nascimento = Date 1990 5 17,
            version = 2, deleted = False, updated_at = Some t2, created_at = Some t1\<rparr>"

definition ex_e2 :: PessoaEvent where
  "ex_e2 = \<lparr>e_id = 2, pessoa_id = 1, base_version = 1, new_version = 2,
            changes = [(''nome'', JStr ''B'')],
            state_after = [(''id'', JInt 1), (''nome'', JStr ''B''), (''cpf'', JStr ''111''),
                           (''data_nascimento'', JStr ''1990-05-17''), (''version'', JInt 2),
                           (''deleted'', JBool False),
                           (''updated_at'', JStr ''2024-01-02T10:00:00'')],
            e_created_at = Some t2\<rparr>"

definition ex_s2 :: store where
  "ex_s2 = \<lparr>pessoas = [ex_p2], pessoa_events = [ex_e1, ex_e2]\<rparr>"

definition ex_patch_cpf :: PessoaPatch where
  "ex_patch_cpf = \<lparr>client_version = 1, patch_nome = None, patch_cpf = Some ''123'',
                   patch_data_nascimento = None\<rparr>"

definition ex_p3 :: Pessoa where
  "ex_p3 = \<lparr>p_id = 1, nome = ''B'', cpf = ''123'', data_nascimento = Date 1990 5 17,
            version = 3, deleted = False, updated_at = Some t3, created_at = Some t1\<rparr>"

definition ex_e3 :: PessoaEvent where
  "ex_e3 = \<lparr>e_id = 3, pessoa_id = 1, base_version = 2, new_version = 3,
            changes = [(''nome'', JStr ''B''), (''cpf'', JStr ''123''),
                       (''data_nascimento'', JStr ''1990-05-17'')],
            state_after = [(''id'', JInt 1), (''nome'', JStr ''B''), (''cpf'', JStr ''123''),
                           (''data_nascimento'', JStr ''1990-05-17''), (''version'', JInt 3),
                           (''deleted'', JBool False),
                           (''updated_at'', JStr ''2024-01-03T10:00:00'')],
            e_created_at = Some t3\<rparr>"

definition ex_s3 :: store where
  "ex_s3 = \<lparr>pessoas = [ex_p3], pessoa_events = [ex_e1, ex_e2, ex_e3]\<rparr>"

text \<open>The person at version 3 is renamed to C by a client that knows version 3.\<close>

definition ex_patch_v3 :: PessoaPatch where
  "ex_patch_v3 = \<lparr>client_version = 3, patch_nome = Some ''C'', patch_cpf = None,
                  patch_data_nascimento = None\<rparr>"

definition ex_p4 :: Pessoa where
  "ex_p4 = \<lparr>p_id = 1, nome = ''C'', cpf = ''123'', data_nascimento = Date 1990 5 17,
            version = 4, deleted = False, updated_at = Some t4, created_at = Some t1\<rparr>"

definition ex_e4 :: PessoaEvent where
  "ex_e4 = \<lparr>e_id = 4, pessoa_id = 1, base_version = 3, new_version = 4,
            changes = [(''nome'', JStr ''C'')],
            state_after = [(''id'', JInt 1), (''nome'', JStr ''C''), (''cpf'', JStr ''123''),
                           (''data_nascimento'', JStr ''1990-05-17''), (''version'', JInt 4),
                           (''deleted'', JBool False),
                           (''updated_at'', JStr ''2024-01-04T10:00:00'')],
            e_created_at = Some t4\<rparr>"

definition ex_s4 :: store where
  "ex_s4 = \<lparr>pessoas = [ex_p4], pessoa_events = [ex_e1, ex_e2, ex_e3, ex_e4]\<rparr>"

text \<open>The person at version 1 after a DELETE.\<close>

definition ex_pd :: Pessoa where
  "ex_pd = \<lparr>p_id = 1, nome = ''A'', cpf = ''111'', data_nascimento = Date 1990 5 17,
            version = 2, deleted = True, updated_at = Some t2, created_at = Some t1\<rparr>"

definition ex_ed :: PessoaEvent where
  "ex_ed = \<lparr>e_id = 2, pessoa_id = 1, base_version = 1, new_version = 2,
            changes = [(''deleted'', JBool True)],
            state_after = [(''id'', JInt 1), (''nome'', JStr ''A''), (''cpf'', JStr ''111''),
                           (''data_nascimento'', JStr ''1990-05-17''), (''version'', JInt 2),
                           (''deleted'', JBool True),
                           (''updated_at'', JStr ''2024-01-02T10:00:00'')],
            e_created_at = Some t2\<rparr>"

definition ex_sd :: store where
  "ex_sd = \<lparr>pessoas = [ex_pd], pessoa_events = [ex_e1, ex_ed]\<rparr>"








section \<open>Properties\<close>

subsection \<open>Dates: printing and parsing\<close>



lemma digit_char_digit_val: "digit_val c = Some k \<Longrightarrow> k < 10 \<and> digit_char k = c"
  by (auto simp: digit_val_def digit_char_def split: if_splits)

lemma div_100: "(n::nat) div 100 = n div 10 div 10"
  by (simp add: div_mult2_eq)

lemma div_1000: "(n::nat) div 1000 = n div 10 div 10 div 10"
  by (simp add: div_mult2_eq)





lemma digit_char_step: "b < 10 \<Longrightarrow> digit_char (10 * a + b) = digit_char b"
  by (simp add: digit_char_def)

lemma div10_step: "b < 10 \<Longrightarrow> (10 * a + b) div 10 = (a::nat)"
  by simp

lemma pad4_digits:
  assumes "digit_val c0 = Some k0" "digit_val c1 = Some k1" "digit_val c2 = Some k2"
    "digit_val c3 = Some k3"
  shows "pad4 (10 * (10 * (10 * k0 + k1) + k2) + k3) = [c0, c1, c2, c3]"
proof -
  from assms have k: "k0 < 10" "k1 < 10" "k2 < 10" "k3 < 10"
    and c: "digit_char k0 = c0" "digit_char k1 = c1" "digit_char k2 = c2" "digit_char k3 = c3"
    using digit_char_digit_val by blast+
  show ?thesis
    by (simp only: pad4_def div_100 div_1000 div10_step digit_char_step k c)
qed

lemma pad2_digits:
  assumes "digit_val c0 = Some k0" "digit_val c1 = Some k1"
  shows "pad2 (10 * k0 + k1) = [c0, c1]"
proof -
  from assms have k: "k0 < 10" "k1 < 10" and c: "digit_char k0 = c0" "digit_char k1 = c1"
    using digit_char_digit_val by blast+
  show ?thesis
    by (simp only: pad2_def div10_step digit_char_step k c)
qed

lemma isoformat_fromisoformat:
  assumes "fromisoformat s = Some d" shows "isoformat d = s"
proof -
  from assms have len: "length s = 10"
    by (auto simp: fromisoformat_def split: if_splits)
  then obtain c0 c1 c2 c3 c4 c5 c6 c7 c8 c9 where s: "s = [c0,c1,c2,c3,c4,c5,c6,c7,c8,c9]"
    by (auto simp: length_Suc_conv eval_nat_numeral)
  from assms s obtain y m dd where
    y: "digits_val [c0,c1,c2,c3] 0 = Some y" and m: "digits_val [c5,c6] 0 = Some m"
    and dd: "digits_val [c8,c9] 0 = Some dd" and d: "d = Date y m dd"
    and sep: "c4 = CHR ''-''" "c7 = CHR ''-''"
    by (auto simp: fromisoformat_def split: if_splits option.splits)
  from y obtain k0 k1 k2 k3 where "digit_val c0 = Some k0" "digit_val c1 = Some k1"
      "digit_val c2 = Some k2" "digit_val c3 = Some k3"
      "y = 10 * (10 * (10 * k0 + k1) + k2) + k3"
    by (simp split: option.splits) blast
  then have "pad4 y = [c0,c1,c2,c3]"
    by (simp only: pad4_digits)
  moreover from m obtain j0 j1 where "digit_val c5 = Some j0" "digit_val c6 = Some j1"
      "m = 10 * j0 + j1"
    by (simp split: option.splits) blast
  then have "pad2 m = [c5,c6]"
    by (simp only: pad2_digits)
  moreover from dd obtain i0 i1 where "digit_val c8 = Some i0" "digit_val c9 = Some i1"
      "dd = 10 * i0 + i1"
    by (simp split: option.splits) blast
  then have "pad2 dd = [c8,c9]"
    by (simp only: pad2_digits)
  ultimately show ?thesis by (simp add: isoformat_def d s sep)
qed


subsection \<open>Dictionaries\<close>

lemma map_of_store_items_at:
  "map_of (store_items s c) x = (case map_of (rev c) x of None \<Rightarrow> map_of s x | Some v \<Rightarrow> Some v)"
proof (induction s c rule: store_items.induct)
  case (1 new_state)
  show ?case by simp
next
  case (2 new_state k v items)
  show ?case
    by (simp add: 2 AList.update_conv' map_add_def split: option.splits)
qed

lemma map_of_store_items: "map_of (store_items s c) = map_of s ++ map_of (rev c)"
  by (rule ext) (simp add: map_of_store_items_at map_add_def)

lemma keys_store_items: "fst ` set (store_items s c) = fst ` set s \<union> fst ` set c"
  by (induction s c rule: store_items.induct) (auto simp: AList.dom_update)

lemma store_items_untouched: "k \<notin> fst ` set c \<Longrightarrow> map_of (store_items s c) k = map_of s k"
  by (simp add: map_of_store_items map_add_def map_of_eq_None_iff [THEN iffD2] split: option.splits)

lemma overlay_empty: "overlay Map.empty t = t"
  by (induction t) auto

lemma overlay_Cons_None: "m k = None \<Longrightarrow> overlay m ((k, x) # r) = (k, x) # overlay m r"
  by simp

lemma overlay_Cons_Some:
  "m k = Some v \<Longrightarrow> overlay m ((k, x) # r) = (k, v) # overlay (m(k := None)) r"
  by simp

lemma update_overlay:
  "k \<in> fst ` set t \<Longrightarrow> AList.update k v (overlay m t) = overlay (m(k \<mapsto> v)) t"
proof (induction t arbitrary: m)
  case Nil
  then show ?case by simp
next
  case (Cons a t)
  obtain k' x where a: "a = (k', x)" by (cases a)
  show ?case
  proof (cases "k' = k")
    case True
    have "(m(k \<mapsto> v)) k = Some v" by simp
    then have "overlay (m(k \<mapsto> v)) ((k, x) # t) = (k, v) # overlay ((m(k \<mapsto> v))(k := None)) t"
      by (rule overlay_Cons_Some)
    also have "(m(k \<mapsto> v))(k := None) = m(k := None)" by simp
    finally have rhs: "overlay (m(k \<mapsto> v)) ((k, x) # t) = (k, v) # overlay (m(k := None)) t" .
    have lhs: "AList.update k v (overlay m ((k, x) # t)) = (k, v) # overlay (m(k := None)) t"
    proof (cases "m k")
      case None
      have "m(k := None) = m" by (intro ext) (simp add: None)
      with None show ?thesis by (simp only: overlay_Cons_None) simp
    next
      case (Some w)
      then show ?thesis by (simp only: overlay_Cons_Some) simp
    qed
    show ?thesis unfolding a True by (simp only: lhs rhs)
  next
    case False
    with Cons.prems a have "k \<in> fst ` set t" by auto
    note IH = Cons.IH [OF this]
    have tw: "(m(k \<mapsto> v))(k' := None) = (m(k' := None))(k \<mapsto> v)"
      using False by (simp add: fun_upd_twist)
    show ?thesis
    proof (cases "m k'")
      case None
      then have "(m(k \<mapsto> v)) k' = None" using False by simp
      then have "overlay (m(k \<mapsto> v)) ((k', x) # t) = (k', x) # overlay (m(k \<mapsto> v)) t"
        by (rule overlay_Cons_None)
      moreover have "AList.update k v (overlay m ((k', x) # t)) = (k', x) # AList.update k v (overlay m t)"
        using None False by (simp only: overlay_Cons_None) simp
      ultimately show ?thesis unfolding a by (simp only: IH)
    next
      case (Some w)
      then have "(m(k \<mapsto> v)) k' = Some w" using False by simp
      then have "overlay (m(k \<mapsto> v)) ((k', x) # t) = (k', w) # overlay ((m(k \<mapsto> v))(k' := None)) t"
        by (rule overlay_Cons_Some)
      moreover have "AList.update k v (overlay m ((k', x) # t))
          = (k', w) # AList.update k v (overlay (m(k' := None)) t)"
        using Some False by (simp only: overlay_Cons_Some) simp
      ultimately show ?thesis unfolding a by (simp only: IH tw)
    qed
  qed
qed

lemma store_items_overlay:
  "fst ` set c \<subseteq> fst ` set t \<Longrightarrow> store_items (overlay m t) c = overlay (m ++ map_of (rev c)) t"
proof (induction c arbitrary: m)
  case Nil
  show ?case by simp
next
  case (Cons a c)
  obtain k v where a: "a = (k, v)" by (cases a)
  from Cons.prems a have k: "k \<in> fst ` set t" and c: "fst ` set c \<subseteq> fst ` set t" by auto
  have eq: "m(k \<mapsto> v) ++ map_of (rev c) = m ++ map_of (rev (a # c))"
    by (rule ext) (simp add: a map_add_def split: option.splits)
  have "store_items (overlay m t) (a # c) = store_items (overlay (m(k \<mapsto> v)) t) c"
    by (simp only: a store_items.simps update_overlay [OF k])
  also have "\<dots> = overlay (m(k \<mapsto> v) ++ map_of (rev c)) t"
    by (rule Cons.IH [OF c])
  finally show ?case by (simp only: eq)
qed

lemma overlay_id: "(\<And>k v. m k = Some v \<Longrightarrow> map_of t k = Some v) \<Longrightarrow> overlay m t = t"
proof (induction t arbitrary: m)
  case Nil
  show ?case by simp
next
  case (Cons a t)
  obtain k x where a: "a = (k, x)" by (cases a)
  show ?case
  proof (cases "m k")
    case None
    have "overlay m t = t"
    proof (rule Cons.IH)
      fix k' v assume "m k' = Some v"
      with None Cons.prems [of k' v] a show "map_of t k' = Some v" by (auto split: if_splits)
    qed
    with None show ?thesis by (simp add: a)
  next
    case (Some v)
    with Cons.prems [of k v] a have vx: "v = x" by simp
    have "overlay (m(k := None)) t = t"
    proof (rule Cons.IH)
      fix k' v' assume "(m(k := None)) k' = Some v'"
      with Cons.prems [of k' v'] a show "map_of t k' = Some v'" by (auto split: if_splits)
    qed
    with Some vx show ?thesis by (simp add: a)
  qed
qed

lemma store_items_twice: "store_items (store_items s c) c = store_items s c"
proof -
  let ?t = "store_items s c"
  have "fst ` set c \<subseteq> fst ` set ?t" by (simp add: keys_store_items)
  then have "store_items (overlay Map.empty ?t) c = overlay (Map.empty ++ map_of (rev c)) ?t"
    by (rule store_items_overlay)
  also have "\<dots> = ?t"
    by (rule overlay_id) (simp add: map_of_store_items)
  finally show ?thesis by (simp add: overlay_empty)
qed



subsection \<open>The merge primitive\<close>

text \<open>
  Claim C9. For every state \<open>s\<close> and every changes mapping \<open>c\<close>, applying \<open>c\<close> a
  second time changes nothing: \<open>apply_changes (apply_changes s c) c\<close> is the very
  dictionary \<open>apply_changes s c\<close> (same items in the same order), and a key that \<open>c\<close>
  does not hold keeps the value it has in \<open>s\<close> through either application.
\<close>

theorem apply_changes_idempotent:
  "apply_changes (apply_changes s c) c = apply_changes s c \<and>
   (\<forall>k. k \<notin> fst ` set c \<longrightarrow>
      map_of (apply_changes s c) k = map_of s k \<and>
      map_of (apply_changes (apply_changes s c) c) k = map_of s k)"
  by (simp add: apply_changes_def store_items_twice store_items_untouched)

theorem apply_changes_idempotent_witness:
  "apply_changes (apply_changes [(''nome'', JStr ''A''), (''cpf'', JStr ''111'')]
                                [(''nome'', JStr ''B'')]) [(''nome'', JStr ''B'')]
     = apply_changes [(''nome'', JStr ''A''), (''cpf'', JStr ''111'')] [(''nome'', JStr ''B'')] \<and>
   ''cpf'' \<notin> fst ` set [(''nome'', JStr ''B'')] \<and>
   map_of (apply_changes [(''nome'', JStr ''A''), (''cpf'', JStr ''111'')] [(''nome'', JStr ''B'')])
          ''cpf'' = Some (JStr ''111'')"
  using apply_changes_idempotent
          [of "[(''nome'', JStr ''A''), (''cpf'', JStr ''111'')]" "[(''nome'', JStr ''B'')]"]
  by simp

lemma map_of_rev_distinct: "distinct (map fst xs) \<Longrightarrow> map_of (rev xs) = map_of xs"
proof (induction xs)
  case Nil
  show ?case by simp
next
  case (Cons a xs)
  obtain k v where a: "a = (k, v)" by (cases a)
  from Cons.prems a have "map_of xs k = None" by (simp add: map_of_eq_None_iff)
  with Cons a show ?case
    by (intro ext) (simp add: map_add_def split: option.splits)
qed

lemma apply_changes_lookup:
  "distinct (map fst c) \<Longrightarrow>
     map_of (apply_changes s c) k = (case map_of c k of None \<Rightarrow> map_of s k | Some v \<Rightarrow> Some v)"
  by (simp add: apply_changes_def map_of_store_items_at map_of_rev_distinct)

lemma apply_changes_untouched:
  "k \<notin> fst ` set c \<Longrightarrow> map_of (apply_changes s c) k = map_of s k"
  by (simp add: apply_changes_def store_items_untouched)

subsection \<open>Replay\<close>

lemma replay_events_append: "replay_events (a @ b) st = replay_events b (replay_events a st)"
  by (induction a arbitrary: st) simp_all

lemma replay_events_untouched:
  "\<forall>ev \<in> set evs. k \<notin> fst ` set (changes ev) \<Longrightarrow> map_of (replay_events evs st) k = map_of st k"
  by (induction evs arbitrary: st) (simp_all add: apply_changes_untouched)

lemma replay_events_last_writer:
  assumes "\<forall>e \<in> set evs2. k \<notin> fst ` set (changes e)" and "distinct (map fst (changes ev))"
    and "map_of (changes ev) k = Some v"
  shows "map_of (replay_events (evs1 @ ev # evs2) st) k = Some v"
  using assms
  by (simp add: replay_events_append replay_events_untouched apply_changes_lookup)

subsection \<open>Queries, flushes and the paths of the PATCH handler\<close>

lemma one_or_none_Some: "one_or_none xs = Inr (Some x) \<longleftrightarrow> xs = [x]"
  by (cases xs rule: one_or_none.cases) auto

lemma one_or_none_None: "one_or_none xs = Inr None \<longleftrightarrow> xs = []"
  by (cases xs rule: one_or_none.cases) auto

lemma filter_key_unique:
  "distinct (map f xs) \<Longrightarrow> x \<in> set xs \<Longrightarrow> filter (\<lambda>q. f q = f x \<and> P q) xs = (if P x then [x] else [])"
proof (induction xs)
  case Nil
  then show ?case by simp
next
  case (Cons a xs)
  show ?case
  proof (cases "a = x")
    case True
    with Cons.prems have "\<forall>q \<in> set xs. f q \<noteq> f x" by (auto simp: image_iff)
    then have "filter (\<lambda>q. f q = f x \<and> P q) xs = []" by (simp add: filter_empty_conv)
    with True show ?thesis by simp
  next
    case False
    with Cons.prems have "x \<in> set xs" "f a \<noteq> f x" "distinct (map f xs)" by auto
    with Cons.IH show ?thesis by simp
  qed
qed

lemma find_pessoa_live:
  "distinct (map p_id (pessoas s)) \<Longrightarrow> p \<in> set (pessoas s) \<Longrightarrow> \<not> deleted p
     \<Longrightarrow> find_pessoa s (p_id p) = Inr (Some p)"
  using filter_key_unique [of p_id "pessoas s" p "\<lambda>q. \<not> deleted q"]
  by (simp add: find_pessoa_def)

lemma find_pessoa_deleted:
  "distinct (map p_id (pessoas s)) \<Longrightarrow> p \<in> set (pessoas s) \<Longrightarrow> deleted p
     \<Longrightarrow> find_pessoa s (p_id p) = Inr None"
  using filter_key_unique [of p_id "pessoas s" p "\<lambda>q. \<not> deleted q"]
  by (simp add: find_pessoa_def)

lemma find_pessoa_SomeD:
  assumes "find_pessoa s i = Inr (Some p)"
  shows "p \<in> set (pessoas s)" "p_id p = i" "\<not> deleted p"
proof -
  from assms have "filter (\<lambda>q. p_id q = i \<and> \<not> deleted q) (pessoas s) = [p]"
    by (simp add: find_pessoa_def one_or_none_Some)
  then have "p \<in> set (filter (\<lambda>q. p_id q = i \<and> \<not> deleted q) (pessoas s))" by simp
  then show "p \<in> set (pessoas s)" "p_id p = i" "\<not> deleted p" by simp_all
qed

lemma provided_changes_empty:
  "patch_nome payload = None \<Longrightarrow> patch_cpf payload = None \<Longrightarrow> patch_data_nascimento payload = None
     \<Longrightarrow> provided_changes_of s i payload = Inr []"
  by (simp add: provided_changes_of_def)

lemma provided_changes_nonempty:
  assumes "patch_nome payload \<noteq> None \<or> patch_cpf payload \<noteq> None \<or> patch_data_nascimento payload \<noteq> None"
    and "\<And>c. patch_cpf payload = Some c \<Longrightarrow>
           filter (\<lambda>q. cpf q = c \<and> p_id q \<noteq> i \<and> \<not> deleted q) (pessoas s) = []"
  shows "\<exists>pc. provided_changes_of s i payload = Inr pc \<and> pc \<noteq> []"
  using assms by (auto simp: provided_changes_of_def split: option.splits)

lemma provided_changes_lookup:
  assumes "provided_changes_of s i payload = Inr pc"
  shows "map_of pc ''nome'' = map_option JStr (patch_nome payload)"
    and "map_of pc ''cpf'' = map_option JStr (patch_cpf payload)"
    and "map_of pc ''data_nascimento'' = map_option (\<lambda>d. JStr (isoformat d)) (patch_data_nascimento payload)"
    and "k \<noteq> ''nome'' \<Longrightarrow> k \<noteq> ''cpf'' \<Longrightarrow> k \<noteq> ''data_nascimento'' \<Longrightarrow> map_of pc k = None"
    and "distinct (map fst pc)"
  using assms
  by (auto simp: provided_changes_of_def Let_def AList.update_conv' split: option.splits sum.splits)

lemma run_txn_Inr: "run_txn s r = (s', Inr x) \<longleftrightarrow> r = Inr (s', x)"
  by (auto simp: run_txn_def split: sum.splits)

lemma run_txn_Inl: "run_txn s r = (s', Inl err) \<longleftrightarrow> s' = s \<and> r = Inl err"
  by (auto simp: run_txn_def split: sum.splits)

lemma get_str_Inr: "get_str d k = Inr x \<longleftrightarrow> map_of d k = Some (JStr x)"
  by (auto simp: get_str_def split: option.splits json.splits)

lemma parse_date_Inr: "parse_date x = Inr d \<longleftrightarrow> fromisoformat x = Some d"
  by (auto simp: parse_date_def split: option.splits)

lemma flush_update_Inr:
  "flush_update s now p = Inr (s1, p1) \<longleftrightarrow>
     (\<forall>q \<in> set (pessoas s). p_id q \<noteq> p_id p \<longrightarrow> cpf q \<noteq> cpf p) \<and>
     p1 = p\<lparr>updated_at := Some now\<rparr> \<and>
     s1 = s\<lparr>pessoas := map (\<lambda>q. if p_id q = p_id p then p1 else q) (pessoas s)\<rparr>"
  by (auto simp: flush_update_def Let_def)

lemma patch_txn_replay:
  assumes "find_pessoa s i = Inr (Some p)" and "0 < client_version payload"
    and "client_version payload < version p"
    and "provided_changes_of s i payload = Inr pc" and "pc \<noteq> []"
  shows "patch_pessoa_txn s now i payload = patch_replay s now i p (client_version payload) pc"
  using assms by (simp add: patch_pessoa_txn_def)


lemma patch_replay_result:
  assumes "patch_replay s now i p cv pc = Inr (s', p')"
  shows "\<exists>snap x. snapshot_at_version s i cv = Inr snap \<and>
           map_of (replay_forward s i cv (version p) (apply_changes snap pc)) ''nome''
             = Some (JStr (nome p')) \<and>
           map_of (replay_forward s i cv (version p) (apply_changes snap pc)) ''cpf''
             = Some (JStr (cpf p')) \<and>
           map_of (replay_forward s i cv (version p) (apply_changes snap pc)) ''data_nascimento''
             = Some (JStr x) \<and>
           fromisoformat x = Some (data_nascimento p') \<and>
           p' = p\<lparr>nome := nome p', cpf := cpf p', data_nascimento := data_nascimento p',
                   version := version p + 1, updated_at := Some now\<rparr> \<and>
           s' = persist_event (s\<lparr>pessoas := map (\<lambda>q. if p_id q = p_id p then p' else q) (pessoas s)\<rparr>)
                  now p' (version p)
                  [(''nome'', JStr (nome p')), (''cpf'', JStr (cpf p')),
                   (''data_nascimento'', JStr (isoformat (data_nascimento p')))]"
  using assms
  by (auto simp: patch_replay_def Let_def get_str_Inr parse_date_Inr flush_update_Inr
      split: sum.splits)

subsection \<open>The sample history, step by step\<close>

lemmas ex_defs = t1_def t2_def t3_def t4_def ex_create_def ex_p1_def ex_e1_def ex_s1_def
  ex_patch_nome_def ex_p2_def ex_e2_def ex_s2_def ex_patch_cpf_def ex_p3_def ex_e3_def ex_s3_def
  ex_patch_v3_def ex_p4_def ex_e4_def ex_s4_def ex_pd_def ex_ed_def ex_sd_def

lemma ex_iso: "isoformat (Date 1990 5 17) = ''1990-05-17''"
  by (simp add: isoformat_def pad4_def pad2_def digit_char_def)

lemma ex_parse: "fromisoformat ''1990-05-17'' = Some (Date 1990 5 17)"
  by (simp add: fromisoformat_def digit_val_def valid_date_def days_in_month_def)

lemmas handler_defs = run_txn_def find_pessoa_def flush_insert_def flush_update_def next_id_def
  persist_event_def pessoa_to_dict_def opt_iso_def get_str_def parse_date_def Let_def

lemma ex_step1: "create_pessoa empty_store t1 ex_create = (ex_s1, Inr ex_p1)"
  by (simp add: create_pessoa_def create_pessoa_txn_def empty_store_def handler_defs ex_defs ex_iso)

lemma ex_step2: "patch_pessoa ex_s1 t2 1 ex_patch_nome = (ex_s2, Inr ex_p2)"
  by (simp add: patch_pessoa_def patch_pessoa_txn_def provided_changes_of_def patch_direct_def
      handler_defs ex_defs ex_iso)

lemma ex_snapshot: "snapshot_at_version ex_s2 1 1 = Inr (state_after ex_e1)"
  by (simp add: snapshot_at_version_def ex_defs)

lemma ex_between: "events_between ex_s2 1 1 2 = [ex_e2]"
  by (simp add: events_between_def ex_defs)

lemma ex_step3: "patch_pessoa ex_s2 t3 1 ex_patch_cpf = (ex_s3, Inr ex_p3)"
  by (simp add: patch_pessoa_def patch_pessoa_txn_def provided_changes_of_def patch_replay_def
      snapshot_at_version_def replay_forward_def events_between_def apply_changes_def
      handler_defs ex_defs ex_iso ex_parse)

lemma ex_step4: "patch_pessoa ex_s3 t4 1 ex_patch_v3 = (ex_s4, Inr ex_p4)"
  by (simp add: patch_pessoa_def patch_pessoa_txn_def provided_changes_of_def patch_direct_def
      handler_defs ex_defs ex_iso)


subsection \<open>Rejected requests\<close>

text \<open>
  Claim C8. A PATCH on an existing, not deleted person whose claimed version is zero or
  negative fails with \<open>InvalidVersion\<close> whatever fields the payload carries, and the
  store is left as it was.
\<close>

theorem patch_invalid_version:
  assumes "distinct (map p_id (pessoas s))" and "p \<in> set (pessoas s)" and "\<not> deleted p"
    and "client_version payload \<le> 0"
  shows "patch_pessoa s now (p_id p) payload = (s, Inl InvalidVersion)"
  using assms
  by (simp add: patch_pessoa_def patch_pessoa_txn_def run_txn_def find_pessoa_live)

theorem patch_invalid_version_witness:
  "distinct (map p_id (pessoas ex_s1)) \<and> ex_p1 \<in> set (pessoas ex_s1) \<and> \<not> deleted ex_p1 \<and>
   client_version (ex_patch_nome\<lparr>client_version := 0\<rparr>) \<le> 0 \<and>
   patch_pessoa ex_s1 t2 (p_id ex_p1) (ex_patch_nome\<lparr>client_version := 0\<rparr>) = (ex_s1, Inl InvalidVersion)"
  using patch_invalid_version [of ex_s1 ex_p1 "ex_patch_nome\<lparr>client_version := 0\<rparr>" t2]
  by (simp add: ex_defs)

text \<open>
  Claim C10. A soft-deleted person is invisible to every handler that looks a person up:
  PATCH and DELETE on its key (and GET as well) fail with \<open>NotFound\<close>, whatever version
  or payload the request carries, and the store (rows and events) is left as it was.
\<close>

theorem deleted_invisible:
  assumes "distinct (map p_id (pessoas s))" and "p \<in> set (pessoas s)" and "deleted p"
  shows "patch_pessoa s now (p_id p) payload = (s, Inl NotFound) \<and>
         delete_pessoa s now (p_id p) version' = (s, Inl NotFound) \<and>
         get_pessoa s (p_id p) = Inl NotFound"
  using assms
  by (simp add: patch_pessoa_def patch_pessoa_txn_def delete_pessoa_def delete_pessoa_txn_def
      get_pessoa_def run_txn_def find_pessoa_deleted)

theorem deleted_invisible_witness:
  "distinct (map p_id (pessoas ex_sd)) \<and> ex_pd \<in> set (pessoas ex_sd) \<and> deleted ex_pd \<and>
   patch_pessoa ex_sd t3 (p_id ex_pd) ex_patch_nome = (ex_sd, Inl NotFound) \<and>
   delete_pessoa ex_sd t3 (p_id ex_pd) 2 = (ex_sd, Inl NotFound) \<and>
   get_pessoa ex_sd (p_id ex_pd) = Inl NotFound"
  using deleted_invisible [of ex_sd ex_pd t3 ex_patch_nome 2]
  by (simp add: ex_defs)

text \<open>
  Claim C3, as stated: every PATCH with a claimed version above the current one fails
  with \<open>VersionAhead\<close>, also when it carries no field. The handler returns early on an
  empty set of changes, before it compares the versions: the person at version 1,
  patched with claimed version 5 and no field, comes back unchanged and no error is
  raised.
\<close>

theorem patch_version_ahead_counterexample:
  "find_pessoa ex_s1 1 = Inr (Some ex_p1) \<and> version ex_p1 = 1 \<and>
   patch_pessoa ex_s1 t2 1
     \<lparr>client_version = 5, patch_nome = None, patch_cpf = None, patch_data_nascimento = None\<rparr>
     = (ex_s1, Inr ex_p1)"
  by (simp add: patch_pessoa_def patch_pessoa_txn_def provided_changes_of_def handler_defs ex_defs)

text \<open>
  Claim C3, amended. On an existing, not deleted person with a claimed version above
  the current one: a PATCH without any field returns the current row and leaves the
  store as it was; a PATCH with at least one field, whose \<^verbatim>\<open>cpf\<close> (if sent) no other
  live person holds, fails with \<open>VersionAhead\<close> and leaves the store as it was.
\<close>

theorem patch_version_ahead:
  assumes "distinct (map p_id (pessoas s))" and "p \<in> set (pessoas s)" and "\<not> deleted p"
    and "1 \<le> version p" and "version p < client_version payload"
  shows "(patch_nome payload = None \<and> patch_cpf payload = None \<and>
          patch_data_nascimento payload = None
            \<longrightarrow> patch_pessoa s now (p_id p) payload = (s, Inr p)) \<and>
         ((patch_nome payload \<noteq> None \<or> patch_cpf payload \<noteq> None \<or>
           patch_data_nascimento payload \<noteq> None) \<and>
          (\<forall>c. patch_cpf payload = Some c \<longrightarrow>
             filter (\<lambda>q. cpf q = c \<and> p_id q \<noteq> p_id p \<and> \<not> deleted q) (pessoas s) = [])
            \<longrightarrow> patch_pessoa s now (p_id p) payload = (s, Inl VersionAhead))"
proof (intro conjI impI)
  assume "patch_nome payload = None \<and> patch_cpf payload = None \<and>
          patch_data_nascimento payload = None"
  then have "provided_changes_of s (p_id p) payload = Inr []"
    by (simp add: provided_changes_empty)
  with assms show "patch_pessoa s now (p_id p) payload = (s, Inr p)"
    by (simp add: patch_pessoa_def patch_pessoa_txn_def run_txn_def find_pessoa_live)
next
  assume a: "(patch_nome payload \<noteq> None \<or> patch_cpf payload \<noteq> None \<or>
           patch_data_nascimento payload \<noteq> None) \<and>
          (\<forall>c. patch_cpf payload = Some c \<longrightarrow>
             filter (\<lambda>q. cpf q = c \<and> p_id q \<noteq> p_id p \<and> \<not> deleted q) (pessoas s) = [])"
  then obtain pc where "provided_changes_of s (p_id p) payload = Inr pc" "pc \<noteq> []"
    using provided_changes_nonempty [of payload "p_id p" s] by blast
  with assms show "patch_pessoa s now (p_id p) payload = (s, Inl VersionAhead)"
    by (simp add: patch_pessoa_def patch_pessoa_txn_def run_txn_def find_pessoa_live)
qed

theorem patch_version_ahead_witness:
  "distinct (map p_id (pessoas ex_s1)) \<and> ex_p1 \<in> set (pessoas ex_s1) \<and> \<not> deleted ex_p1 \<and>
   1 \<le> version ex_p1 \<and> version ex_p1 < client_version (ex_patch_nome\<lparr>client_version := 5\<rparr>) \<and>
   patch_nome (ex_patch_nome\<lparr>client_version := 5\<rparr>) \<noteq> None \<and>
   patch_pessoa ex_s1 t2 (p_id ex_p1) (ex_patch_nome\<lparr>client_version := 5\<rparr>)
     = (ex_s1, Inl VersionAhead)"
  using patch_version_ahead [of ex_s1 ex_p1 "ex_patch_nome\<lparr>client_version := 5\<rparr>" t2]
  by (simp add: ex_defs)

text \<open>
  Claim C4 says that a DELETE with a claimed version above the current one is rejected and
  leaves the person unchanged. The handler only rejects a claimed version below the
  current one: the person at version 1, deleted with claimed version 7, is soft-deleted,
  moves to version 2 and gets an event.
\<close>

theorem delete_ahead_accepted:
  "find_pessoa ex_s1 1 = Inr (Some ex_p1) \<and> version ex_p1 = 1 \<and>
   delete_pessoa ex_s1 t2 1 7 = (ex_sd, Inr ex_pd) \<and> deleted ex_pd \<and> version ex_pd = 2 \<and>
   pessoas ex_sd = [ex_pd] \<and> pessoa_events ex_sd = pessoa_events ex_s1 @ [ex_ed]"
  by (simp add: delete_pessoa_def delete_pessoa_txn_def handler_defs ex_defs ex_iso)

subsection \<open>The direct path\<close>


subsection \<open>The replay path\<close>

text \<open>
  Claim C2. A successful PATCH of a stale client (claimed version below the current one,
  at least one field) leaves the row at the current version plus one with the fields
  \<^verbatim>\<open>nome\<close>, \<^verbatim>\<open>cpf\<close> and \<^verbatim>\<open>data_nascimento\<close> of
  \<open>replay_forward\<close> from the claimed to the current version over the snapshot at the
  claimed version with the client's changes applied. In that state a field the client
  sent and no later event touched has the client's value, and a field some later event
  touched has the value of the last event that touched it.
\<close>

theorem patch_replay_path_state:
  assumes "find_pessoa s i = Inr (Some p)"
    and "0 < client_version payload" and "client_version payload < version p"
    and "provided_changes_of s i payload = Inr pc" and "pc \<noteq> []"
    and "patch_pessoa s now i payload = (s', Inr p')"
  shows "\<exists>snap. snapshot_at_version s i (client_version payload) = Inr snap \<and>
           (let final = replay_forward s i (client_version payload) (version p)
                          (apply_changes snap pc);
                evs = events_between s i (client_version payload) (version p)
            in map_of final ''nome'' = Some (JStr (nome p')) \<and>
               map_of final ''cpf'' = Some (JStr (cpf p')) \<and>
               map_of final ''data_nascimento'' = Some (JStr (isoformat (data_nascimento p'))) \<and>
               p' = p\<lparr>nome := nome p', cpf := cpf p', data_nascimento := data_nascimento p',
                       version := version p + 1, updated_at := Some now\<rparr> \<and>
               pessoas s' = map (\<lambda>q. if p_id q = i then p' else q) (pessoas s) \<and>
               (\<forall>k v. map_of pc k = Some v \<and> (\<forall>ev \<in> set evs. k \<notin> fst ` set (changes ev))
                      \<longrightarrow> map_of final k = Some v) \<and>
               (\<forall>k v evs1 ev evs2.
                   evs = evs1 @ ev # evs2 \<and> map_of (changes ev) k = Some v \<and>
                   distinct (map fst (changes ev)) \<and>
                   (\<forall>e \<in> set evs2. k \<notin> fst ` set (changes e))
                      \<longrightarrow> map_of final k = Some v))"
proof -
  let ?cv = "client_version payload"
  from assms(1) have i: "p_id p = i" by (rule find_pessoa_SomeD)
  from assms have "patch_replay s now i p ?cv pc = Inr (s', p')"
    by (simp add: patch_pessoa_def run_txn_Inr patch_txn_replay)
  from patch_replay_result [OF this] obtain snap x where
    snap: "snapshot_at_version s i ?cv = Inr snap"
    and f: "map_of (replay_forward s i ?cv (version p) (apply_changes snap pc)) ''nome''
             = Some (JStr (nome p'))"
       "map_of (replay_forward s i ?cv (version p) (apply_changes snap pc)) ''cpf''
             = Some (JStr (cpf p'))"
       "map_of (replay_forward s i ?cv (version p) (apply_changes snap pc)) ''data_nascimento''
             = Some (JStr x)"
    and x: "fromisoformat x = Some (data_nascimento p')"
    and p': "p' = p\<lparr>nome := nome p', cpf := cpf p', data_nascimento := data_nascimento p',
                   version := version p + 1, updated_at := Some now\<rparr>"
    and s': "s' = persist_event (s\<lparr>pessoas := map (\<lambda>q. if p_id q = p_id p then p' else q) (pessoas s)\<rparr>)
                  now p' (version p)
                  [(''nome'', JStr (nome p')), (''cpf'', JStr (cpf p')),
                   (''data_nascimento'', JStr (isoformat (data_nascimento p')))]"
    by blast
  from x have iso: "isoformat (data_nascimento p') = x" by (rule isoformat_fromisoformat)
  have rf: "replay_forward s i ?cv (version p) st
              = replay_events (events_between s i ?cv (version p)) st" for st
    using assms(3) by (simp add: replay_forward_def)
  have dpc: "distinct (map fst pc)" using assms(4) by (rule provided_changes_lookup)
  have keep: "map_of (replay_events (events_between s i ?cv (version p)) (apply_changes snap pc)) k
                = Some v"
    if "map_of pc k = Some v"
      and "\<forall>ev \<in> set (events_between s i ?cv (version p)). k \<notin> fst ` set (changes ev)" for k v
    using that by (simp add: replay_events_untouched apply_changes_lookup dpc)
  have win: "map_of (replay_events (events_between s i ?cv (version p)) (apply_changes snap pc)) k
                = Some v"
    if "events_between s i ?cv (version p) = evs1 @ ev # evs2"
      and "map_of (changes ev) k = Some v" and "distinct (map fst (changes ev))"
      and "\<forall>e \<in> set evs2. k \<notin> fst ` set (changes e)" for k v evs1 ev evs2
    using that by (simp add: replay_events_last_writer)
  have ps: "pessoas s' = map (\<lambda>q. if p_id q = i then p' else q) (pessoas s)"
    by (simp add: s' persist_event_def i)
  show ?thesis
    unfolding Let_def rf
    using snap f [unfolded rf iso [symmetric]] p' ps keep win
    by (intro exI [of _ snap] conjI allI impI) (assumption | blast)+
qed

theorem patch_replay_path_state_witness:
  "find_pessoa ex_s2 1 = Inr (Some ex_p2) \<and> 0 < client_version ex_patch_cpf \<and>
   client_version ex_patch_cpf < version ex_p2 \<and>
   provided_changes_of ex_s2 1 ex_patch_cpf = Inr [(''cpf'', JStr ''123'')] \<and>
   patch_pessoa ex_s2 t3 1 ex_patch_cpf = (ex_s3, Inr ex_p3) \<and>
   nome ex_p1 = ''A'' \<and> nome ex_p2 = ''B'' \<and>
   nome ex_p3 = ''B'' \<and> cpf ex_p3 = ''123'' \<and> version ex_p3 = 3 \<and>
   (\<exists>snap. snapshot_at_version ex_s2 1 1 = Inr snap \<and>
      map_of (replay_forward ex_s2 1 1 2 (apply_changes snap [(''cpf'', JStr ''123'')])) ''nome''
        = Some (JStr ''B'') \<and>
      map_of (replay_forward ex_s2 1 1 2 (apply_changes snap [(''cpf'', JStr ''123'')])) ''cpf''
        = Some (JStr ''123''))"
proof -
  have h: "find_pessoa ex_s2 1 = Inr (Some ex_p2)" "0 < client_version ex_patch_cpf"
    "client_version ex_patch_cpf < version ex_p2"
    "provided_changes_of ex_s2 1 ex_patch_cpf = Inr [(''cpf'', JStr ''123'')]"
    "[(''cpf'', JStr ''123'')] \<noteq> []"
    by (simp_all add: ex_defs find_pessoa_def provided_changes_of_def Let_def)
  have v: "client_version ex_patch_cpf = 1" "version ex_p2 = 2" "nome ex_p3 = ''B''"
    "cpf ex_p3 = ''123''" "version ex_p3 = 3" "nome ex_p1 = ''A''" "nome ex_p2 = ''B''"
    by (simp_all add: ex_defs)
  from patch_replay_path_state [OF h ex_step3] show ?thesis
    unfolding Let_def v using h(1,4) ex_step3 by (simp add: v) blast
qed

text \<open>
  Claim C1, as stated: the event a successful replay-path PATCH appends holds exactly the
  fields the client sent. In the sample history the stale client sends only \<^verbatim>\<open>cpf\<close>,
  and the event also holds \<^verbatim>\<open>nome\<close> (and \<^verbatim>\<open>data_nascimento\<close>).
\<close>

theorem patch_replay_path_event_counterexample:
  "find_pessoa ex_s2 1 = Inr (Some ex_p2) \<and> 0 < client_version ex_patch_cpf \<and>
   client_version ex_patch_cpf < version ex_p2 \<and>
   provided_changes_of ex_s2 1 ex_patch_cpf = Inr [(''cpf'', JStr ''123'')] \<and>
   patch_pessoa ex_s2 t3 1 ex_patch_cpf = (ex_s3, Inr ex_p3) \<and>
   pessoa_events ex_s3 = pessoa_events ex_s2 @ [ex_e3] \<and>
   map_of (changes ex_e3) ''nome'' = Some (JStr ''B'') \<and>
   map_of [(''cpf'', JStr ''123'')] ''nome'' = None \<and>
   fst ` set (changes ex_e3) \<noteq> fst ` set [(''cpf'', JStr ''123'')]"
  using ex_step3
  by (simp add: ex_defs find_pessoa_def provided_changes_of_def Let_def)

text \<open>
  Claim C1, amended. The event a successful replay-path PATCH appends has the current
  version as base version, the current version plus one as new version, and as changes
  the three fields \<^verbatim>\<open>nome\<close>, \<^verbatim>\<open>cpf\<close> and \<^verbatim>\<open>data_nascimento\<close> with the values of
  the reconciled row, whichever of them the client sent.
\<close>

theorem patch_replay_path_event:
  assumes "find_pessoa s i = Inr (Some p)"
    and "0 < client_version payload" and "client_version payload < version p"
    and "provided_changes_of s i payload = Inr pc" and "pc \<noteq> []"
    and "patch_pessoa s now i payload = (s', Inr p')"
  shows "pessoa_events s' = pessoa_events s @
           [\<lparr>e_id = next_id (map e_id (pessoa_events s)), pessoa_id = i,
             base_version = version p, new_version = version p + 1,
             changes = [(''nome'', JStr (nome p')), (''cpf'', JStr (cpf p')),
                        (''data_nascimento'', JStr (isoformat (data_nascimento p')))],
             state_after = pessoa_to_dict p', e_created_at = Some now\<rparr>]"
proof -
  from assms(1) have i: "p_id p = i" by (rule find_pessoa_SomeD)
  from assms have "patch_replay s now i p (client_version payload) pc = Inr (s', p')"
    by (simp add: patch_pessoa_def run_txn_Inr patch_txn_replay)
  from patch_replay_result [OF this] obtain snap x where
    p': "p' = p\<lparr>nome := nome p', cpf := cpf p', data_nascimento := data_nascimento p',
                   version := version p + 1, updated_at := Some now\<rparr>"
    and s': "s' = persist_event (s\<lparr>pessoas := map (\<lambda>q. if p_id q = p_id p then p' else q) (pessoas s)\<rparr>)
                  now p' (version p)
                  [(''nome'', JStr (nome p')), (''cpf'', JStr (cpf p')),
                   (''data_nascimento'', JStr (isoformat (data_nascimento p')))]"
    by blast
  from p' have "p_id p' = p_id p" "version p' = version p + 1"
    by (cases p', cases p, simp)+
  then show ?thesis
    by (simp add: s' persist_event_def i)
qed

theorem patch_replay_path_event_witness:
  "find_pessoa ex_s2 1 = Inr (Some ex_p2) \<and> 0 < client_version ex_patch_cpf \<and>
   client_version ex_patch_cpf < version ex_p2 \<and>
   provided_changes_of ex_s2 1 ex_patch_cpf = Inr [(''cpf'', JStr ''123'')] \<and>
   patch_pessoa ex_s2 t3 1 ex_patch_cpf = (ex_s3, Inr ex_p3) \<and>
   pessoa_events ex_s3 = pessoa_events ex_s2 @
     [\<lparr>e_id = 3, pessoa_id = 1, base_version = 2, new_version = 3,
       changes = [(''nome'', JStr ''B''), (''cpf'', JStr ''123''),
                  (''data_nascimento'', JStr ''1990-05-17'')],
       state_after = pessoa_to_dict ex_p3, e_created_at = Some t3\<rparr>]"
  using patch_replay_path_event [of ex_s2 1 ex_p2 ex_patch_cpf "[(''cpf'', JStr ''123'')]" t3 ex_s3 ex_p3]
    ex_step3
  by (simp add: ex_defs find_pessoa_def provided_changes_of_def next_id_def pessoa_to_dict_def
      opt_iso_def ex_iso Let_def)

subsection \<open>What a committed transaction does to the store\<close>

lemma fold_max_ge: "(a::int) \<le> fold max ks a"
  by (induction ks arbitrary: a) (auto intro: order_trans [OF max.cobounded2])

lemma fold_max_mem: "k \<in> set ks \<Longrightarrow> (k::int) \<le> fold max ks a"
proof (induction ks arbitrary: a)
  case Nil
  then show ?case by simp
next
  case (Cons x ks)
  show ?case
  proof (cases "k = x")
    case True
    have "max x a \<le> fold max ks (max x a)" by (rule fold_max_ge)
    with True show ?thesis by simp
  next
    case False
    with Cons show ?thesis by simp
  qed
qed

lemma next_id_fresh: "next_id ks \<notin> set ks"
proof
  assume "next_id ks \<in> set ks"
  then have "next_id ks \<le> fold max ks 0" by (rule fold_max_mem)
  then show False by (simp add: next_id_def)
qed

lemma map_p_id_replace:
  "p_id p' = j \<Longrightarrow> map p_id (map (\<lambda>q. if p_id q = j then p' else q) ps) = map p_id ps"
  by (induction ps) auto

lemma set_replace:
  "q' \<in> set (map (\<lambda>q. if p_id q = j then p' else q) ps)
     \<Longrightarrow> (q' = p' \<and> j \<in> p_id ` set ps) \<or> (q' \<in> set ps \<and> p_id q' \<noteq> j)"
  by auto

lemma upto_snoc: "1 \<le> v \<Longrightarrow> [1..v] @ [v + 1] = [1..v + 1]"
  using upto_rec2 [of 1 "v + 1"] by simp

lemma provided_changes_keys:
  assumes "provided_changes_of s i payload = Inr pc"
  shows "set (map fst pc) \<subseteq> set delta_keys"
proof
  fix k assume "k \<in> set (map fst pc)"
  then have "map_of pc k \<noteq> None" by (simp add: map_of_eq_None_iff)
  with provided_changes_lookup(4) [OF assms, of k]
  show "k \<in> set delta_keys" by (auto simp: delta_keys_def)
qed

lemma pessoa_to_dict_lookup:
  "map_of (pessoa_to_dict p) ''id'' = Some (JInt (p_id p))"
  "map_of (pessoa_to_dict p) ''nome'' = Some (JStr (nome p))"
  "map_of (pessoa_to_dict p) ''cpf'' = Some (JStr (cpf p))"
  "map_of (pessoa_to_dict p) ''data_nascimento'' = Some (JStr (isoformat (data_nascimento p)))"
  "map_of (pessoa_to_dict p) ''version'' = Some (JInt (version p))"
  "map_of (pessoa_to_dict p) ''deleted'' = Some (JBool (deleted p))"
  "map fst (pessoa_to_dict p) = snapshot_keys"
  by (simp_all add: pessoa_to_dict_def snapshot_keys_def)

lemma same_fields_iff:
  "same_fields d d' \<longleftrightarrow>
     map_of d ''nome'' = map_of d' ''nome'' \<and> map_of d ''cpf'' = map_of d' ''cpf'' \<and>
     map_of d ''data_nascimento'' = map_of d' ''data_nascimento'' \<and>
     map_of d ''deleted'' = map_of d' ''deleted''"
  by (simp add: same_fields_def delta_keys_def)

lemma patch_direct_shape:
  assumes r: "patch_direct s now p pc = Inr (s', p')"
    and pc: "provided_changes_of s i payload = Inr pc"
  shows "p_id p' = p_id p \<and> version p' = version p + 1 \<and>
         s' = persist_event (s\<lparr>pessoas := map (\<lambda>q. if p_id q = p_id p then p' else q) (pessoas s)\<rparr>)
                now p' (version p) pc \<and>
         same_fields (pessoa_to_dict p') (apply_changes (pessoa_to_dict p) pc)"
proof -
  note lk = provided_changes_lookup(1-3) [OF pc]
  have del: "map_of pc ''deleted'' = None"
    by (rule provided_changes_lookup(4) [OF pc]) simp_all
  have dpc: "distinct (map fst pc)" by (rule provided_changes_lookup(5) [OF pc])
  show ?thesis
    using r lk del
    unfolding patch_direct_def same_fields_iff
    by (cases "patch_nome payload"; cases "patch_cpf payload"; cases "patch_data_nascimento payload")
       (auto simp add: Let_def get_str_def parse_date_def flush_update_Inr
          apply_changes_lookup [OF dpc] pessoa_to_dict_lookup isoformat_fromisoformat
          split: option.splits sum.splits)
qed

lemma patch_replay_shape:
  assumes r: "patch_replay s now i p cv pc = Inr (s', p')"
  shows "p_id p' = p_id p \<and> version p' = version p + 1 \<and>
         s' = persist_event (s\<lparr>pessoas := map (\<lambda>q. if p_id q = p_id p then p' else q) (pessoas s)\<rparr>)
                now p' (version p)
                [(''nome'', JStr (nome p')), (''cpf'', JStr (cpf p')),
                 (''data_nascimento'', JStr (isoformat (data_nascimento p')))] \<and>
         same_fields (pessoa_to_dict p')
           (apply_changes (pessoa_to_dict p)
              [(''nome'', JStr (nome p')), (''cpf'', JStr (cpf p')),
               (''data_nascimento'', JStr (isoformat (data_nascimento p')))])"
proof -
  from patch_replay_result [OF r] obtain snap x where
    p': "p' = p\<lparr>nome := nome p', cpf := cpf p', data_nascimento := data_nascimento p',
                   version := version p + 1, updated_at := Some now\<rparr>"
    and s': "s' = persist_event (s\<lparr>pessoas := map (\<lambda>q. if p_id q = p_id p then p' else q) (pessoas s)\<rparr>)
                  now p' (version p)
                  [(''nome'', JStr (nome p')), (''cpf'', JStr (cpf p')),
                   (''data_nascimento'', JStr (isoformat (data_nascimento p')))]"
    by blast
  from p' have f: "p_id p' = p_id p" "version p' = version p + 1" "deleted p' = deleted p"
    by (cases p', cases p, simp)+
  show ?thesis
    using f s' by (simp add: same_fields_iff apply_changes_lookup pessoa_to_dict_lookup)
qed

lemma patch_txn_shape:
  assumes "patch_pessoa_txn s now i payload = Inr (s', p')"
  shows "\<exists>p. find_pessoa s i = Inr (Some p) \<and>
           ((s' = s \<and> p' = p) \<or>
            (\<exists>ch. p_id p' = p_id p \<and> version p' = version p + 1 \<and>
               s' = persist_event (s\<lparr>pessoas := map (\<lambda>q. if p_id q = p_id p then p' else q) (pessoas s)\<rparr>)
                      now p' (version p) ch \<and>
               set (map fst ch) \<subseteq> set delta_keys \<and>
               same_fields (pessoa_to_dict p') (apply_changes (pessoa_to_dict p) ch)))"
proof -
  from assms obtain p where p: "find_pessoa s i = Inr (Some p)"
    by (auto simp: patch_pessoa_txn_def split: sum.splits option.splits)
  from assms p obtain pc where pc: "provided_changes_of s i payload = Inr pc"
    by (auto simp: patch_pessoa_txn_def Let_def split: sum.splits if_splits)
  show ?thesis
  proof (cases "pc = []")
    case True
    with assms p pc have "s' = s \<and> p' = p"
      by (auto simp: patch_pessoa_txn_def Let_def split: if_splits)
    with p show ?thesis by blast
  next
    case False
    with assms p pc consider
      (direct) "patch_direct s now p pc = Inr (s', p')"
      | (replay) "patch_replay s now i p (client_version payload) pc = Inr (s', p')"
      by (auto simp: patch_pessoa_txn_def Let_def split: if_splits)
    then show ?thesis
    proof cases
      case direct
      from patch_direct_shape [OF direct pc] provided_changes_keys [OF pc] p
      show ?thesis by blast
    next
      case replay
      have "set (map fst [(''nome'', JStr (nome p')), (''cpf'', JStr (cpf p')),
                 (''data_nascimento'', JStr (isoformat (data_nascimento p')))]) \<subseteq> set delta_keys"
        by (simp add: delta_keys_def)
      with patch_replay_shape [OF replay] p show ?thesis by blast
    qed
  qed
qed

lemma delete_txn_shape:
  assumes "delete_pessoa_txn s now i v = Inr (s', p')"
  shows "\<exists>p. find_pessoa s i = Inr (Some p) \<and>
           p_id p' = p_id p \<and> version p' = version p + 1 \<and>
           s' = persist_event (s\<lparr>pessoas := map (\<lambda>q. if p_id q = p_id p then p' else q) (pessoas s)\<rparr>)
                  now p' (version p) [(''deleted'', JBool True)] \<and>
           same_fields (pessoa_to_dict p')
             (apply_changes (pessoa_to_dict p) [(''deleted'', JBool True)])"
  using assms
  by (auto simp: delete_pessoa_txn_def Let_def flush_update_Inr same_fields_iff
      apply_changes_lookup pessoa_to_dict_lookup split: sum.splits option.splits if_splits)

lemma create_txn_shape:
  assumes "create_pessoa_txn s now c = Inr (s', p')"
  shows "p_id p' = next_id (map p_id (pessoas s)) \<and> version p' = 1 \<and>
         s' = persist_event (s\<lparr>pessoas := pessoas s @ [p']\<rparr>) now p' 0
                [(''nome'', JStr (nome p')), (''cpf'', JStr (cpf p')),
                 (''data_nascimento'', JStr (isoformat (data_nascimento p'))),
                 (''deleted'', JBool False)]"
  using assms
  by (auto simp: create_pessoa_txn_def flush_insert_def Let_def
      split: sum.splits option.splits if_splits)

lemma persist_event_appended:
  "version p1 = v + 1 \<Longrightarrow> one_event_appended s (persist_event (s\<lparr>pessoas := ps\<rparr>) now p1 v ch) (p_id p1) v"
  by (simp add: one_event_appended_def persist_event_def)

lemma persist_event_pessoas: "pessoas (persist_event s now p v ch) = pessoas s"
  by (simp add: persist_event_def)

subsection \<open>The numbering of the log\<close>

lemma commit_log_invariant:
  assumes inv: "log_invariant s" and p: "p \<in> set (pessoas s)"
    and id1: "p_id p1 = p_id p" and v1: "version p1 = version p + 1"
  shows "log_invariant
           (persist_event (s\<lparr>pessoas := map (\<lambda>q. if p_id q = p_id p then p1 else q) (pessoas s)\<rparr>)
              now p1 (version p) ch)"
proof -
  let ?j = "p_id p"
  define e where "e = \<lparr>e_id = next_id (map e_id (pessoa_events s)), pessoa_id = ?j,
             base_version = version p, new_version = version p + 1, changes = ch,
             state_after = pessoa_to_dict p1, e_created_at = Some now\<rparr>"
  define ps where "ps = map (\<lambda>q. if p_id q = ?j then p1 else q) (pessoas s)"
  have s': "persist_event (s\<lparr>pessoas := map (\<lambda>q. if p_id q = p_id p then p1 else q) (pessoas s)\<rparr>)
              now p1 (version p) ch
              = s\<lparr>pessoas := ps, pessoa_events := pessoa_events s @ [e]\<rparr>"
    by (simp add: persist_event_def ps_def id1 v1 e_def)
  have e: "pessoa_id e = ?j" "base_version e = version p" "new_version e = version p + 1"
    by (simp_all add: e_def)
  from inv have d: "distinct (map p_id (pessoas s))"
    and fk: "\<forall>e \<in> set (pessoa_events s). pessoa_id e \<in> p_id ` set (pessoas s)"
    and per: "\<And>q. q \<in> set (pessoas s) \<Longrightarrow> 1 \<le> version q \<and>
        map new_version (events_of s (p_id q)) = [1..version q] \<and>
        (\<forall>e \<in> set (events_of s (p_id q)). base_version e = new_version e - 1)"
    by (auto simp: log_invariant_def)
  have ids: "map p_id ps = map p_id (pessoas s)"
    unfolding ps_def by (rule map_p_id_replace [OF id1])
  then have img: "p_id ` set ps = p_id ` set (pessoas s)"
    by (metis list.set_map)
  have c1: "distinct (map p_id ps)" by (simp only: ids d)
  have c2: "\<forall>x \<in> set (pessoa_events s @ [e]). pessoa_id x \<in> p_id ` set ps"
    using fk p by (auto simp: img e)
  have c3: "1 \<le> version q' \<and>
        map new_version (events_of (s\<lparr>pessoas := ps, pessoa_events := pessoa_events s @ [e]\<rparr>) (p_id q'))
          = [1..version q'] \<and>
        (\<forall>x \<in> set (events_of (s\<lparr>pessoas := ps, pessoa_events := pessoa_events s @ [e]\<rparr>) (p_id q')).
            base_version x = new_version x - 1)" if "q' \<in> set ps" for q'
  proof -
    from that have "(q' = p1 \<and> ?j \<in> p_id ` set (pessoas s)) \<or> (q' \<in> set (pessoas s) \<and> p_id q' \<noteq> ?j)"
      unfolding ps_def by (rule set_replace)
    then show ?thesis
    proof
      assume "q' = p1 \<and> ?j \<in> p_id ` set (pessoas s)"
      then have q': "q' = p1" by simp
      from per [OF p] have "1 \<le> version p"
        "map new_version (events_of s ?j) = [1..version p]"
        "\<forall>e \<in> set (events_of s ?j). base_version e = new_version e - 1" by simp_all
      then show ?thesis
        by (simp add: q' id1 v1 events_of_def upto_snoc e)
    next
      assume "q' \<in> set (pessoas s) \<and> p_id q' \<noteq> ?j"
      then have "q' \<in> set (pessoas s)" "p_id q' \<noteq> ?j" by simp_all
      with per [of q'] show ?thesis by (simp add: events_of_def e)
    qed
  qed
  show ?thesis
    unfolding s' log_invariant_def using c1 c2 c3 by simp
qed

lemma create_log_invariant:
  assumes inv: "log_invariant s"
    and id1: "p_id p1 = next_id (map p_id (pessoas s))" and v1: "version p1 = 1"
  shows "log_invariant (persist_event (s\<lparr>pessoas := pessoas s @ [p1]\<rparr>) now p1 0 ch)"
proof -
  define e where "e = \<lparr>e_id = next_id (map e_id (pessoa_events s)), pessoa_id = p_id p1,
             base_version = 0, new_version = 1, changes = ch,
             state_after = pessoa_to_dict p1, e_created_at = Some now\<rparr>"
  have s': "persist_event (s\<lparr>pessoas := pessoas s @ [p1]\<rparr>) now p1 0 ch
              = s\<lparr>pessoas := pessoas s @ [p1], pessoa_events := pessoa_events s @ [e]\<rparr>"
    by (simp add: persist_event_def v1 e_def)
  have e: "pessoa_id e = p_id p1" "base_version e = 0" "new_version e = 1"
    by (simp_all add: e_def)
  from inv have d: "distinct (map p_id (pessoas s))"
    and fk: "\<forall>e \<in> set (pessoa_events s). pessoa_id e \<in> p_id ` set (pessoas s)"
    and per: "\<And>q. q \<in> set (pessoas s) \<Longrightarrow> 1 \<le> version q \<and>
        map new_version (events_of s (p_id q)) = [1..version q] \<and>
        (\<forall>e \<in> set (events_of s (p_id q)). base_version e = new_version e - 1)"
    by (auto simp: log_invariant_def)
  have fresh: "p_id p1 \<notin> p_id ` set (pessoas s)"
    using next_id_fresh [of "map p_id (pessoas s)"] by (simp add: id1)
  have "pessoa_id x \<noteq> p_id p1" if "x \<in> set (pessoa_events s)" for x
  proof
    assume "pessoa_id x = p_id p1"
    moreover from fk that have "pessoa_id x \<in> p_id ` set (pessoas s)" by blast
    ultimately show False using fresh by simp
  qed
  then have none: "events_of s (p_id p1) = []"
    by (simp add: events_of_def filter_empty_conv)
  have c1: "distinct (map p_id (pessoas s @ [p1]))" using d fresh by simp
  have c2: "\<forall>x \<in> set (pessoa_events s @ [e]). pessoa_id x \<in> p_id ` set (pessoas s @ [p1])"
    using fk by (auto simp: e)
  have c3: "1 \<le> version q' \<and>
        map new_version (events_of (s\<lparr>pessoas := pessoas s @ [p1], pessoa_events := pessoa_events s @ [e]\<rparr>) (p_id q'))
          = [1..version q'] \<and>
        (\<forall>x \<in> set (events_of (s\<lparr>pessoas := pessoas s @ [p1], pessoa_events := pessoa_events s @ [e]\<rparr>) (p_id q')).
            base_version x = new_version x - 1)" if "q' \<in> set (pessoas s @ [p1])" for q'
  proof (cases "q' = p1")
    case True
    with none show ?thesis by (simp add: events_of_def e v1)
  next
    case False
    with that have q': "q' \<in> set (pessoas s)" by simp
    with fresh have "p_id q' \<noteq> p_id p1" by (auto simp: image_iff)
    with per [OF q'] show ?thesis by (simp add: events_of_def e)
  qed
  show ?thesis
    unfolding s' log_invariant_def using c1 c2 c3 by simp
qed

lemma create_step:
  assumes inv: "log_invariant s" and r: "create_pessoa s now c = (s', r')"
  shows "log_invariant s' \<and>
         (\<forall>p'. r' = Inr p' \<longrightarrow> version p' = 1 \<and> p_id p' \<notin> p_id ` set (pessoas s) \<and>
                  p' \<in> set (pessoas s') \<and> one_event_appended s s' (p_id p') 0) \<and>
         (\<forall>err. r' = Inl err \<longrightarrow> s' = s)"
proof (cases r')
  case (Inl err)
  with r have "s' = s" by (simp add: create_pessoa_def run_txn_Inl)
  with inv Inl show ?thesis by simp
next
  case (Inr p')
  with r have "create_pessoa_txn s now c = Inr (s', p')"
    by (simp add: create_pessoa_def run_txn_Inr)
  from create_txn_shape [OF this] obtain ch where
    id1: "p_id p' = next_id (map p_id (pessoas s))" and v1: "version p' = 1"
    and s': "s' = persist_event (s\<lparr>pessoas := pessoas s @ [p']\<rparr>) now p' 0 ch"
    by blast
  have "p_id p' \<notin> p_id ` set (pessoas s)"
    using next_id_fresh [of "map p_id (pessoas s)"] by (simp add: id1)
  moreover have "one_event_appended s s' (p_id p') 0"
    unfolding s' by (rule persist_event_appended) (simp add: v1)
  moreover have "p' \<in> set (pessoas s')" by (simp add: s' persist_event_pessoas)
  moreover have "log_invariant s'" unfolding s' by (rule create_log_invariant [OF inv id1 v1])
  ultimately show ?thesis using Inr v1 by simp
qed

lemma patch_step:
  assumes inv: "log_invariant s" and r: "patch_pessoa s now i payload = (s', r')"
  shows "log_invariant s' \<and>
         (\<forall>p p'. find_pessoa s i = Inr (Some p) \<and> r' = Inr p' \<longrightarrow>
            (s' = s \<and> p' = p) \<or>
            (version p' = version p + 1 \<and> p' \<in> set (pessoas s') \<and>
             one_event_appended s s' i (version p))) \<and>
         (\<forall>err. r' = Inl err \<longrightarrow> s' = s)"
proof (cases r')
  case (Inl err)
  with r have "s' = s" by (simp add: patch_pessoa_def run_txn_Inl)
  with inv Inl show ?thesis by simp
next
  case (Inr p')
  with r have "patch_pessoa_txn s now i payload = Inr (s', p')"
    by (simp add: patch_pessoa_def run_txn_Inr)
  from patch_txn_shape [OF this] obtain p where p: "find_pessoa s i = Inr (Some p)"
    and alt: "(s' = s \<and> p' = p) \<or>
            (\<exists>ch. p_id p' = p_id p \<and> version p' = version p + 1 \<and>
               s' = persist_event (s\<lparr>pessoas := map (\<lambda>q. if p_id q = p_id p then p' else q) (pessoas s)\<rparr>)
                      now p' (version p) ch)"
    by blast
  note pm = find_pessoa_SomeD [OF p]
  from alt show ?thesis
  proof
    assume "s' = s \<and> p' = p"
    with inv Inr p show ?thesis by simp
  next
    assume "\<exists>ch. p_id p' = p_id p \<and> version p' = version p + 1 \<and>
               s' = persist_event (s\<lparr>pessoas := map (\<lambda>q. if p_id q = p_id p then p' else q) (pessoas s)\<rparr>)
                      now p' (version p) ch"
    then obtain ch where id1: "p_id p' = p_id p" and v1: "version p' = version p + 1"
      and s': "s' = persist_event (s\<lparr>pessoas := map (\<lambda>q. if p_id q = p_id p then p' else q) (pessoas s)\<rparr>)
                      now p' (version p) ch"
      by blast
    have "log_invariant s'" unfolding s' by (rule commit_log_invariant [OF inv pm(1) id1 v1])
    moreover have "one_event_appended s s' (p_id p') (version p)"
      unfolding s' by (rule persist_event_appended) (simp add: v1)
    moreover have "p' \<in> set (pessoas s')"
      using pm(1) by (auto simp: s' persist_event_pessoas image_iff)
    ultimately show ?thesis using Inr p v1 id1 pm(2) by simp
  qed
qed

lemma delete_step:
  assumes inv: "log_invariant s" and r: "delete_pessoa s now i v = (s', r')"
  shows "log_invariant s' \<and>
         (\<forall>p p'. find_pessoa s i = Inr (Some p) \<and> r' = Inr p' \<longrightarrow>
            version p' = version p + 1 \<and> deleted p' \<and> p' \<in> set (pessoas s') \<and>
            one_event_appended s s' i (version p)) \<and>
         (\<forall>err. r' = Inl err \<longrightarrow> s' = s)"
proof (cases r')
  case (Inl err)
  with r have "s' = s" by (simp add: delete_pessoa_def run_txn_Inl)
  with inv Inl show ?thesis by simp
next
  case (Inr p')
  with r have txn: "delete_pessoa_txn s now i v = Inr (s', p')"
    by (simp add: delete_pessoa_def run_txn_Inr)
  from delete_txn_shape [OF this] obtain p where p: "find_pessoa s i = Inr (Some p)"
    and id1: "p_id p' = p_id p" and v1: "version p' = version p + 1"
    and s': "s' = persist_event (s\<lparr>pessoas := map (\<lambda>q. if p_id q = p_id p then p' else q) (pessoas s)\<rparr>)
                      now p' (version p) [(''deleted'', JBool True)]"
    by blast
  note pm = find_pessoa_SomeD [OF p]
  from txn p have del: "deleted p'"
    by (auto simp: delete_pessoa_txn_def Let_def flush_update_Inr split: if_splits sum.splits)
  have "log_invariant s'" unfolding s' by (rule commit_log_invariant [OF inv pm(1) id1 v1])
  moreover have "one_event_appended s s' (p_id p') (version p)"
    unfolding s' by (rule persist_event_appended) (simp add: v1)
  moreover have "p' \<in> set (pessoas s')"
    using pm(1) by (auto simp: s' persist_event_pessoas image_iff)
  ultimately show ?thesis using Inr p v1 id1 pm(2) del by simp
qed

lemma log_invariant_empty: "log_invariant empty_store"
  by (simp add: log_invariant_def empty_store_def)

text \<open>
  Claim C6. The numbering of the log holds for the empty tables and every handler
  (create, PATCH on the direct and on the replay path, DELETE) preserves it: for each
  person the events carry the new versions 1 up to the current version, each once and
  with the version before it as base version. A committed create stores a new person at
  version 1 with one event from base version 0; a committed PATCH or DELETE moves the
  person from version \<open>n\<close> to \<open>n + 1\<close> and appends exactly one event from base version
  \<open>n\<close>; a PATCH without changes and every request that raises leave the store as it was.
\<close>

theorem log_invariant_preserved:
  "log_invariant empty_store \<and>
   (log_invariant s \<longrightarrow>
         log_invariant (fst (create_pessoa s now c)) \<and>
         log_invariant (fst (patch_pessoa s now i payload)) \<and>
         log_invariant (fst (delete_pessoa s now i v)) \<and>
         (\<forall>p'. snd (create_pessoa s now c) = Inr p' \<longrightarrow>
            version p' = 1 \<and> p_id p' \<notin> p_id ` set (pessoas s) \<and>
            p' \<in> set (pessoas (fst (create_pessoa s now c))) \<and>
            one_event_appended s (fst (create_pessoa s now c)) (p_id p') 0) \<and>
         (\<forall>p p'. find_pessoa s i = Inr (Some p) \<and> snd (patch_pessoa s now i payload) = Inr p' \<longrightarrow>
            (fst (patch_pessoa s now i payload) = s \<and> p' = p) \<or>
            (version p' = version p + 1 \<and>
             p' \<in> set (pessoas (fst (patch_pessoa s now i payload))) \<and>
             one_event_appended s (fst (patch_pessoa s now i payload)) i (version p))) \<and>
         (\<forall>p p'. find_pessoa s i = Inr (Some p) \<and> snd (delete_pessoa s now i v) = Inr p' \<longrightarrow>
            version p' = version p + 1 \<and> deleted p' \<and>
            p' \<in> set (pessoas (fst (delete_pessoa s now i v))) \<and>
            one_event_appended s (fst (delete_pessoa s now i v)) i (version p)) \<and>
         (\<forall>err. snd (create_pessoa s now c) = Inl err \<longrightarrow> fst (create_pessoa s now c) = s) \<and>
         (\<forall>err. snd (patch_pessoa s now i payload) = Inl err
            \<longrightarrow> fst (patch_pessoa s now i payload) = s) \<and>
         (\<forall>err. snd (delete_pessoa s now i v) = Inl err \<longrightarrow> fst (delete_pessoa s now i v) = s))"
  (is "_ \<and> (_ \<longrightarrow> ?steps)")
proof (rule conjI)
  show "log_invariant empty_store" by (rule log_invariant_empty)
next
  show "log_invariant s \<longrightarrow> ?steps"
  proof (rule impI)
    assume inv: "log_invariant s"
    note c = create_step [OF inv prod.collapse [symmetric], of now c]
    note p = patch_step [OF inv prod.collapse [symmetric], of now i payload]
    note d = delete_step [OF inv prod.collapse [symmetric], of now i v]
    from c p d show ?steps
      by (elim conjE, intro conjI) assumption+
  qed
qed

lemma ex_upto: "[1..1] = [1]" "[1..2] = [1, 2]" "[1..3] = [1, 2, 3]" "[1..4] = [1, 2, 3, 4]"
  by (simp_all add: upto_rec1)

lemma ex_log_invariant: "log_invariant ex_s2"
  by (simp add: log_invariant_def events_of_def ex_defs ex_upto)

theorem log_invariant_preserved_witness:
  "log_invariant ex_s2 \<and> find_pessoa ex_s2 1 = Inr (Some ex_p2) \<and>
   patch_pessoa ex_s2 t3 1 ex_patch_cpf = (ex_s3, Inr ex_p3) \<and>
   log_invariant ex_s3 \<and> version ex_p3 = version ex_p2 + 1 \<and>
   one_event_appended ex_s2 ex_s3 1 (version ex_p2) \<and>
   log_invariant (fst (create_pessoa ex_s2 t3 ex_create)) \<and>
   log_invariant (fst (delete_pessoa ex_s2 t3 1 2))"
proof -
  have f: "find_pessoa ex_s2 1 = Inr (Some ex_p2)" by (simp add: find_pessoa_def ex_defs)
  have ne: "ex_s3 \<noteq> ex_s2" by (simp add: ex_defs)
  note th = log_invariant_preserved [THEN conjunct2, THEN mp, OF ex_log_invariant,
      of t3 ex_create 1 ex_patch_cpf 2, unfolded ex_step3 fst_conv snd_conv]
  note a = th [THEN conjunct1]
  note b = th [THEN conjunct2, THEN conjunct1]
  note c = th [THEN conjunct2, THEN conjunct2, THEN conjunct1]
  note d = th [THEN conjunct2, THEN conjunct2, THEN conjunct2, THEN conjunct2, THEN conjunct1]
  from d f ne have "version ex_p3 = version ex_p2 + 1 \<and> one_event_appended ex_s2 ex_s3 1 (version ex_p2)"
    by blast
  with a b c f ex_step3 ex_log_invariant show ?thesis by simp
qed

subsection \<open>Replaying from a snapshot\<close>

lemma same_fields_refl: "same_fields d d"
  by (simp add: same_fields_def)

lemma same_fields_sym: "same_fields d d' \<Longrightarrow> same_fields d' d"
  by (simp add: same_fields_def)

lemma same_fields_trans: "same_fields a b \<Longrightarrow> same_fields b c \<Longrightarrow> same_fields a c"
  by (simp add: same_fields_def)

lemma same_fields_apply:
  "same_fields d d' \<Longrightarrow> same_fields (apply_changes d c) (apply_changes d' c)"
  by (auto simp: same_fields_def apply_changes_def map_of_store_items_at split: option.splits)

lemma chain_ok_snoc:
  "chain_ok (state_after e0) (es @ [e]) \<longleftrightarrow>
     chain_ok (state_after e0) es \<and>
     same_fields (state_after e) (apply_changes (state_after (last (e0 # es))) (changes e))"
  by (induction es arbitrary: e0) auto

lemma chain_ok_append:
  "chain_ok (state_after x0) (xs @ ys) \<Longrightarrow> chain_ok (state_after (last (x0 # xs))) ys"
  by (induction xs arbitrary: x0) auto

lemma chain_ok_replay:
  "chain_ok st ys \<Longrightarrow> same_fields st' st
     \<Longrightarrow> same_fields (replay_events ys st') (if ys = [] then st else state_after (last ys))"
proof (induction ys arbitrary: st st')
  case Nil
  then show ?case by simp
next
  case (Cons e ys)
  from Cons.prems have a: "same_fields (state_after e) (apply_changes st (changes e))"
    and b: "chain_ok (state_after e) ys" by simp_all
  from Cons.prems(2) have "same_fields (apply_changes st' (changes e)) (apply_changes st (changes e))"
    by (rule same_fields_apply)
  with a have "same_fields (apply_changes st' (changes e)) (state_after e)"
    by (blast intro: same_fields_trans same_fields_sym)
  from Cons.IH [OF b this] show ?case by (auto split: if_splits)
qed

lemma commit_replay_invariant:
  assumes inv: "replay_invariant s" and p: "p \<in> set (pessoas s)"
    and id1: "p_id p1 = p_id p" and v1: "version p1 = version p + 1"
    and keys: "set (map fst ch) \<subseteq> set delta_keys"
    and sf: "same_fields (pessoa_to_dict p1) (apply_changes (pessoa_to_dict p) ch)"
  shows "replay_invariant
           (persist_event (s\<lparr>pessoas := map (\<lambda>q. if p_id q = p_id p then p1 else q) (pessoas s)\<rparr>)
              now p1 (version p) ch)"
proof -
  let ?j = "p_id p"
  define e where "e = \<lparr>e_id = next_id (map e_id (pessoa_events s)), pessoa_id = ?j,
             base_version = version p, new_version = version p + 1, changes = ch,
             state_after = pessoa_to_dict p1, e_created_at = Some now\<rparr>"
  define ps where "ps = map (\<lambda>q. if p_id q = ?j then p1 else q) (pessoas s)"
  have s': "persist_event (s\<lparr>pessoas := map (\<lambda>q. if p_id q = p_id p then p1 else q) (pessoas s)\<rparr>)
              now p1 (version p) ch
              = s\<lparr>pessoas := ps, pessoa_events := pessoa_events s @ [e]\<rparr>"
    by (simp add: persist_event_def ps_def id1 v1 e_def)
  have e: "pessoa_id e = ?j" "new_version e = version p + 1" "changes e = ch"
    "state_after e = pessoa_to_dict p1"
    by (simp_all add: e_def)
  from inv have ev: "\<forall>x \<in> set (pessoa_events s). event_ok x"
    and per: "\<And>q. q \<in> set (pessoas s) \<Longrightarrow>
        (case events_of s (p_id q) of
           [] \<Rightarrow> False
         | x # xs \<Rightarrow> chain_ok (state_after x) xs \<and> state_after (last (x # xs)) = pessoa_to_dict q)"
    by (auto simp: replay_invariant_def)
  have "event_ok e"
    by (simp add: event_ok_def e pessoa_to_dict_lookup id1 v1 keys del: set_map)
  with ev have c1: "\<forall>x \<in> set (pessoa_events s @ [e]). event_ok x" by simp
  have c2: "(case events_of (s\<lparr>pessoas := ps, pessoa_events := pessoa_events s @ [e]\<rparr>) (p_id q') of
           [] \<Rightarrow> False
         | x # xs \<Rightarrow> chain_ok (state_after x) xs \<and> state_after (last (x # xs)) = pessoa_to_dict q')"
    if "q' \<in> set ps" for q'
  proof -
    from that have "(q' = p1 \<and> ?j \<in> p_id ` set (pessoas s)) \<or> (q' \<in> set (pessoas s) \<and> p_id q' \<noteq> ?j)"
      unfolding ps_def by (rule set_replace)
    then show ?thesis
    proof
      assume "q' = p1 \<and> ?j \<in> p_id ` set (pessoas s)"
      then have q': "q' = p1" by simp
      from per [OF p] obtain x xs where evs: "events_of s ?j = x # xs"
        and ch: "chain_ok (state_after x) xs"
        and la: "state_after (last (x # xs)) = pessoa_to_dict p"
        by (auto split: list.splits)
      have "events_of (s\<lparr>pessoas := ps, pessoa_events := pessoa_events s @ [e]\<rparr>) (p_id q')
              = x # (xs @ [e])"
        using evs by (simp add: events_of_def q' id1 e)
      moreover have "chain_ok (state_after x) (xs @ [e])"
        unfolding chain_ok_snoc la using ch sf by (simp add: e)
      ultimately show ?thesis by (simp add: e q')
    next
      assume "q' \<in> set (pessoas s) \<and> p_id q' \<noteq> ?j"
      then have "q' \<in> set (pessoas s)" "p_id q' \<noteq> ?j" by simp_all
      with per [of q'] show ?thesis by (simp add: events_of_def e)
    qed
  qed
  show ?thesis
    unfolding s' replay_invariant_def using c1 c2 by simp
qed

lemma create_replay_invariant:
  assumes linv: "log_invariant s" and inv: "replay_invariant s"
    and id1: "p_id p1 = next_id (map p_id (pessoas s))" and v1: "version p1 = 1"
    and keys: "set (map fst ch) \<subseteq> set delta_keys"
  shows "replay_invariant (persist_event (s\<lparr>pessoas := pessoas s @ [p1]\<rparr>) now p1 0 ch)"
proof -
  define e where "e = \<lparr>e_id = next_id (map e_id (pessoa_events s)), pessoa_id = p_id p1,
             base_version = 0, new_version = 1, changes = ch,
             state_after = pessoa_to_dict p1, e_created_at = Some now\<rparr>"
  have s': "persist_event (s\<lparr>pessoas := pessoas s @ [p1]\<rparr>) now p1 0 ch
              = s\<lparr>pessoas := pessoas s @ [p1], pessoa_events := pessoa_events s @ [e]\<rparr>"
    by (simp add: persist_event_def v1 e_def)
  have e: "pessoa_id e = p_id p1" "new_version e = 1" "changes e = ch"
    "state_after e = pessoa_to_dict p1"
    by (simp_all add: e_def)
  from linv have fk: "\<forall>e \<in> set (pessoa_events s). pessoa_id e \<in> p_id ` set (pessoas s)"
    by (simp add: log_invariant_def)
  from inv have ev: "\<forall>x \<in> set (pessoa_events s). event_ok x"
    and per: "\<And>q. q \<in> set (pessoas s) \<Longrightarrow>
        (case events_of s (p_id q) of
           [] \<Rightarrow> False
         | x # xs \<Rightarrow> chain_ok (state_after x) xs \<and> state_after (last (x # xs)) = pessoa_to_dict q)"
    by (auto simp: replay_invariant_def)
  have fresh: "p_id p1 \<notin> p_id ` set (pessoas s)"
    using next_id_fresh [of "map p_id (pessoas s)"] by (simp add: id1)
  have "pessoa_id x \<noteq> p_id p1" if "x \<in> set (pessoa_events s)" for x
  proof
    assume "pessoa_id x = p_id p1"
    moreover from fk that have "pessoa_id x \<in> p_id ` set (pessoas s)" by blast
    ultimately show False using fresh by simp
  qed
  then have none: "events_of s (p_id p1) = []"
    by (simp add: events_of_def filter_empty_conv)
  have "event_ok e"
    by (simp add: event_ok_def e pessoa_to_dict_lookup v1 keys del: set_map)
  with ev have c1: "\<forall>x \<in> set (pessoa_events s @ [e]). event_ok x" by simp
  have c2: "(case events_of (s\<lparr>pessoas := pessoas s @ [p1], pessoa_events := pessoa_events s @ [e]\<rparr>) (p_id q') of
           [] \<Rightarrow> False
         | x # xs \<Rightarrow> chain_ok (state_after x) xs \<and> state_after (last (x # xs)) = pessoa_to_dict q')"
    if "q' \<in> set (pessoas s @ [p1])" for q'
  proof (cases "q' = p1")
    case True
    with none show ?thesis by (simp add: events_of_def e)
  next
    case False
    with that have q': "q' \<in> set (pessoas s)" by simp
    with fresh have "p_id q' \<noteq> p_id p1" by (auto simp: image_iff)
    with per [OF q'] show ?thesis by (simp add: events_of_def e)
  qed
  show ?thesis
    unfolding s' replay_invariant_def using c1 c2 by simp
qed

lemma replay_invariant_empty: "replay_invariant empty_store"
  by (simp add: replay_invariant_def empty_store_def)

lemma reachable_invariants: "reachable s \<Longrightarrow> log_invariant s \<and> replay_invariant s"
proof (induction rule: reachable.induct)
  case reachable_init
  show ?case by (simp add: log_invariant_empty replay_invariant_empty)
next
  case (reachable_create s now payload)
  then have li: "log_invariant s" and ri: "replay_invariant s" by simp_all
  obtain s' r' where r: "create_pessoa s now payload = (s', r')" by (cases "create_pessoa s now payload")
  have "replay_invariant s'"
  proof (cases r')
    case (Inl err)
    with r have "s' = s" by (simp add: create_pessoa_def run_txn_Inl)
    with ri show ?thesis by simp
  next
    case (Inr p')
    with r have "create_pessoa_txn s now payload = Inr (s', p')"
      by (simp add: create_pessoa_def run_txn_Inr)
    from create_txn_shape [OF this] have
      id1: "p_id p' = next_id (map p_id (pessoas s))" and v1: "version p' = 1"
      and s': "s' = persist_event (s\<lparr>pessoas := pessoas s @ [p']\<rparr>) now p' 0
                [(''nome'', JStr (nome p')), (''cpf'', JStr (cpf p')),
                 (''data_nascimento'', JStr (isoformat (data_nascimento p'))),
                 (''deleted'', JBool False)]"
      by simp_all
    show ?thesis
      unfolding s' by (rule create_replay_invariant [OF li ri id1 v1]) (simp add: delta_keys_def)
  qed
  moreover from create_step [OF li r] have "log_invariant s'" by simp
  ultimately show ?case by (simp add: r)
next
  case (reachable_patch s now i payload)
  then have li: "log_invariant s" and ri: "replay_invariant s" by simp_all
  obtain s' r' where r: "patch_pessoa s now i payload = (s', r')" by (cases "patch_pessoa s now i payload")
  have "replay_invariant s'"
  proof (cases r')
    case (Inl err)
    with r have "s' = s" by (simp add: patch_pessoa_def run_txn_Inl)
    with ri show ?thesis by simp
  next
    case (Inr p')
    with r have "patch_pessoa_txn s now i payload = Inr (s', p')"
      by (simp add: patch_pessoa_def run_txn_Inr)
    from patch_txn_shape [OF this] obtain p where p: "find_pessoa s i = Inr (Some p)"
      and alt: "(s' = s \<and> p' = p) \<or>
            (\<exists>ch. p_id p' = p_id p \<and> version p' = version p + 1 \<and>
               s' = persist_event (s\<lparr>pessoas := map (\<lambda>q. if p_id q = p_id p then p' else q) (pessoas s)\<rparr>)
                      now p' (version p) ch \<and>
               set (map fst ch) \<subseteq> set delta_keys \<and>
               same_fields (pessoa_to_dict p') (apply_changes (pessoa_to_dict p) ch))"
      by blast
    note pm = find_pessoa_SomeD [OF p]
    from alt show ?thesis
    proof
      assume "s' = s \<and> p' = p"
      with ri show ?thesis by simp
    next
      assume "\<exists>ch. p_id p' = p_id p \<and> version p' = version p + 1 \<and>
               s' = persist_event (s\<lparr>pessoas := map (\<lambda>q. if p_id q = p_id p then p' else q) (pessoas s)\<rparr>)
                      now p' (version p) ch \<and>
               set (map fst ch) \<subseteq> set delta_keys \<and>
               same_fields (pessoa_to_dict p') (apply_changes (pessoa_to_dict p) ch)"
      then obtain ch where id1: "p_id p' = p_id p" and v1: "version p' = version p + 1"
        and s': "s' = persist_event (s\<lparr>pessoas := map (\<lambda>q. if p_id q = p_id p then p' else q) (pessoas s)\<rparr>)
                      now p' (version p) ch"
        and keys: "set (map fst ch) \<subseteq> set delta_keys"
        and sf: "same_fields (pessoa_to_dict p') (apply_changes (pessoa_to_dict p) ch)"
        by blast
      show ?thesis unfolding s' by (rule commit_replay_invariant [OF ri pm(1) id1 v1 keys sf])
    qed
  qed
  moreover from patch_step [OF li r] have "log_invariant s'" by simp
  ultimately show ?case by (simp add: r)
next
  case (reachable_delete s now i v)
  then have li: "log_invariant s" and ri: "replay_invariant s" by simp_all
  obtain s' r' where r: "delete_pessoa s now i v = (s', r')" by (cases "delete_pessoa s now i v")
  have "replay_invariant s'"
  proof (cases r')
    case (Inl err)
    with r have "s' = s" by (simp add: delete_pessoa_def run_txn_Inl)
    with ri show ?thesis by simp
  next
    case (Inr p')
    with r have "delete_pessoa_txn s now i v = Inr (s', p')"
      by (simp add: delete_pessoa_def run_txn_Inr)
    from delete_txn_shape [OF this] obtain p where p: "find_pessoa s i = Inr (Some p)"
      and id1: "p_id p' = p_id p" and v1: "version p' = version p + 1"
      and s': "s' = persist_event (s\<lparr>pessoas := map (\<lambda>q. if p_id q = p_id p then p' else q) (pessoas s)\<rparr>)
                      now p' (version p) [(''deleted'', JBool True)]"
      and sf: "same_fields (pessoa_to_dict p')
             (apply_changes (pessoa_to_dict p) [(''deleted'', JBool True)])"
      by blast
    note pm = find_pessoa_SomeD [OF p]
    show ?thesis
      unfolding s' by (rule commit_replay_invariant [OF ri pm(1) id1 v1 _ sf]) (simp add: delta_keys_def)
  qed
  moreover from delete_step [OF li r] have "log_invariant s'" by simp
  ultimately show ?case by (simp add: r)
qed

lemma numbered_split:
  assumes m: "map f evs = [1..n]" and v: "1 \<le> v" "v \<le> n"
  obtains c et b where "evs = c @ et # b" and "f et = v"
    and "\<forall>x \<in> set c. f x < v" and "\<forall>x \<in> set b. v < f x \<and> f x \<le> n"
proof -
  from v have "[1..n] = [1..v - 1] @ v # [v + 1..n]" by (rule upto_split3)
  with m have "map f evs = [1..v - 1] @ v # [v + 1..n]" by simp
  then obtain c r where evs: "evs = c @ r" and c: "map f c = [1..v - 1]"
    and r: "map f r = v # [v + 1..n]"
    by (auto simp: map_eq_append_conv)
  from r obtain et b where r': "r = et # b" and et: "f et = v" and b: "map f b = [v + 1..n]"
    by (auto simp: map_eq_Cons_conv)
  have "f x < v" if "x \<in> set c" for x
  proof -
    from that have "f x \<in> set (map f c)" by simp
    then show ?thesis unfolding c by simp
  qed
  moreover have "v < f x \<and> f x \<le> n" if "x \<in> set b" for x
  proof -
    from that have "f x \<in> set (map f b)" by simp
    then show ?thesis unfolding b by simp
  qed
  ultimately show ?thesis using evs r' et that by blast
qed

lemma snapshot_replay_under_invariants:
  assumes li: "log_invariant s" and ri: "replay_invariant s"
    and p: "p \<in> set (pessoas s)" and v: "1 \<le> v" "v \<le> version p"
  shows "\<exists>snap. snapshot_at_version s (p_id p) v = Inr snap \<and>
           (\<forall>k. k \<noteq> ''version'' \<and> k \<noteq> ''updated_at'' \<longrightarrow>
              map_of (replay_forward s (p_id p) v (version p) snap) k = map_of (pessoa_to_dict p) k) \<and>
           map_of (replay_forward s (p_id p) v (version p) snap) ''version'' = Some (JInt v) \<and>
           map_of (replay_forward s (p_id p) v (version p) snap) ''updated_at''
             = map_of snap ''updated_at''"
proof -
  let ?j = "p_id p" and ?n = "version p"
  let ?evs = "events_of s ?j"
  from li p have num: "map new_version ?evs = [1..?n]"
    by (simp add: log_invariant_def)
  from numbered_split [OF num v] obtain c et b where
    evs: "?evs = c @ et # b" and et: "new_version et = v"
    and c: "\<forall>x \<in> set c. new_version x < v"
    and b: "\<forall>x \<in> set b. v < new_version x \<and> new_version x \<le> ?n"
    by blast
  have mem: "x \<in> set (pessoa_events s)" if "x \<in> set ?evs" for x
    using that by (simp add: events_of_def)
  from ri have ok: "event_ok x" if "x \<in> set ?evs" for x
    using mem [OF that] by (simp add: replay_invariant_def)
  \<comment> \<open>the snapshot query\<close>
  have "filter (\<lambda>e. pessoa_id e = ?j \<and> new_version e = v) (pessoa_events s)
          = filter (\<lambda>e. new_version e = v) ?evs"
    by (simp add: events_of_def)
  also have "\<dots> = [et]"
  proof -
    have "filter (\<lambda>e. new_version e = v) c = []" using c by (auto simp: filter_empty_conv)
    moreover have "filter (\<lambda>e. new_version e = v) b = []" using b by (auto simp: filter_empty_conv)
    ultimately show ?thesis by (simp add: evs et)
  qed
  finally have snap: "snapshot_at_version s ?j v = Inr (state_after et)"
    by (simp add: snapshot_at_version_def)
  \<comment> \<open>the replay query\<close>
  have "filter (\<lambda>e. pessoa_id e = ?j \<and> new_version e > v \<and> new_version e \<le> ?n) (pessoa_events s)
          = filter (\<lambda>e. new_version e > v \<and> new_version e \<le> ?n) ?evs"
    by (simp add: events_of_def)
  also have "\<dots> = b"
  proof -
    have "filter (\<lambda>e. new_version e > v \<and> new_version e \<le> ?n) c = []"
      using c by (auto simp: filter_empty_conv)
    moreover have "filter (\<lambda>e. new_version e > v \<and> new_version e \<le> ?n) b = b"
      using b by (auto simp: filter_id_conv)
    ultimately show ?thesis by (simp add: evs et)
  qed
  finally have fb: "filter (\<lambda>e. pessoa_id e = ?j \<and> new_version e > v \<and> new_version e \<le> ?n)
                      (pessoa_events s) = b" .
  have "sorted (map new_version ?evs)" by (simp add: num)
  then have "sorted (map new_version b)" by (simp add: evs sorted_append)
  then have between: "events_between s ?j v ?n = b"
    by (simp add: events_between_def fb sort_key_id_if_sorted)
  have rf: "replay_forward s ?j v ?n st = replay_events b st" for st
  proof (cases "?n \<le> v")
    case True
    with b have "b = []" by (cases b) (auto simp: order.strict_iff_not)
    with True show ?thesis by (simp add: replay_forward_def)
  next
    case False
    then show ?thesis by (simp add: replay_forward_def between)
  qed
  \<comment> \<open>the chain of snapshots\<close>
  from ri p have "case ?evs of [] \<Rightarrow> False
         | x # xs \<Rightarrow> chain_ok (state_after x) xs \<and> state_after (last (x # xs)) = pessoa_to_dict p"
    by (simp add: replay_invariant_def)
  then obtain x xs where xs: "?evs = x # xs" and ch: "chain_ok (state_after x) xs"
    and la: "state_after (last ?evs) = pessoa_to_dict p"
    by (auto split: list.splits)
  have chb: "chain_ok (state_after et) b"
  proof (cases c)
    case Nil
    with evs xs ch show ?thesis by simp
  next
    case (Cons c0 cs)
    with evs xs have "x = c0" "xs = (cs @ [et]) @ b" by simp_all
    with ch have "chain_ok (state_after c0) ((cs @ [et]) @ b)" by simp
    from chain_ok_append [OF this] show ?thesis by simp
  qed
  have "same_fields (replay_events b (state_after et))
          (if b = [] then state_after et else state_after (last b))"
    by (rule chain_ok_replay [OF chb same_fields_refl])
  also have "(if b = [] then state_after et else state_after (last b)) = state_after (last ?evs)"
    by (simp add: evs)
  finally have sf: "same_fields (replay_events b (state_after et)) (pessoa_to_dict p)"
    by (simp add: la)
  \<comment> \<open>keys outside the deltas\<close>
  have etok: "event_ok et" by (rule ok) (simp add: evs)
  have bok: "\<forall>ev \<in> set b. k \<notin> fst ` set (changes ev)" if "k \<notin> set delta_keys" for k
  proof
    fix ev assume "ev \<in> set b"
    then have "event_ok ev" by (intro ok) (simp add: evs)
    then have "set (map fst (changes ev)) \<subseteq> set delta_keys" by (simp add: event_ok_def)
    with that show "k \<notin> fst ` set (changes ev)" by auto
  qed
  have keep: "map_of (replay_events b (state_after et)) k = map_of (state_after et) k"
    if "k \<notin> set delta_keys" for k
    by (rule replay_events_untouched [OF bok [OF that]])
  from li p et have etid: "pessoa_id et = ?j"
  proof -
    have "et \<in> set ?evs" by (simp add: evs)
    then show ?thesis by (simp add: events_of_def)
  qed
  have other: "map_of (replay_events b (state_after et)) k = map_of (pessoa_to_dict p) k"
    if "k \<noteq> ''version''" "k \<noteq> ''updated_at''" for k
  proof (cases "k \<in> set delta_keys")
    case True
    with sf show ?thesis by (simp add: same_fields_def)
  next
    case False
    show ?thesis
    proof (cases "k = ''id''")
      case True
      with keep [OF False] etok etid show ?thesis
        by (simp add: event_ok_def pessoa_to_dict_lookup)
    next
      case nid: False
      with False that have "k \<notin> set snapshot_keys"
        by (simp add: snapshot_keys_def delta_keys_def)
      moreover from etok have "map fst (state_after et) = snapshot_keys" by (simp add: event_ok_def)
      ultimately have "map_of (state_after et) k = None" "map_of (pessoa_to_dict p) k = None"
        by (simp_all add: map_of_eq_None_iff pessoa_to_dict_lookup(7) del: set_map flip: set_map)
      with keep [OF False] show ?thesis by simp
    qed
  qed
  have ver: "map_of (replay_events b (state_after et)) ''version'' = Some (JInt v)"
    using keep [of "''version''"] etok et by (simp add: delta_keys_def event_ok_def)
  have upd: "map_of (replay_events b (state_after et)) ''updated_at''
               = map_of (state_after et) ''updated_at''"
    using keep [of "''updated_at''"] by (simp add: delta_keys_def)
  show ?thesis
    unfolding rf snap using other ver upd by blast
qed

lemma ex_reachable: "reachable ex_s1" "reachable ex_s2" "reachable ex_s3"
proof -
  from reachable_create [OF reachable_init, of t1 ex_create] show 1: "reachable ex_s1"
    by (simp add: ex_step1)
  from reachable_patch [OF 1, of t2 1 ex_patch_nome] show 2: "reachable ex_s2"
    by (simp add: ex_step2)
  from reachable_patch [OF 2, of t3 1 ex_patch_cpf] show "reachable ex_s3"
    by (simp add: ex_step3)
qed

text \<open>
  Claim C5, as stated: for every person and every version \<open>v\<close> from 1 to the current
  version, \<open>replay_forward\<close> from \<open>v\<close> to the current version over the snapshot at \<open>v\<close>
  equals the person's current snapshot. A delta never holds \<^verbatim>\<open>version\<close> or
  \<^verbatim>\<open>updated_at\<close>, so the replay keeps those of the old snapshot: in the sample history
  at version 2, the replay from version 1 ends with \<^verbatim>\<open>version\<close> 1, and the current
  snapshot has \<^verbatim>\<open>version\<close> 2.
\<close>

theorem replay_from_snapshot_counterexample:
  "reachable ex_s2 \<and> ex_p2 \<in> set (pessoas ex_s2) \<and> version ex_p2 = 2 \<and>
   snapshot_at_version ex_s2 (p_id ex_p2) 1 = Inr (state_after ex_e1) \<and>
   map_of (replay_forward ex_s2 (p_id ex_p2) 1 (version ex_p2) (state_after ex_e1)) ''version''
     = Some (JInt 1) \<and>
   map_of (pessoa_to_dict ex_p2) ''version'' = Some (JInt 2) \<and>
   replay_forward ex_s2 (p_id ex_p2) 1 (version ex_p2) (state_after ex_e1) \<noteq> pessoa_to_dict ex_p2"
proof -
  have "replay_forward ex_s2 (p_id ex_p2) 1 (version ex_p2) (state_after ex_e1)
          = [(''id'', JInt 1), (''nome'', JStr ''B''), (''cpf'', JStr ''111''),
             (''data_nascimento'', JStr ''1990-05-17''), (''version'', JInt 1),
             (''deleted'', JBool False), (''updated_at'', JStr ''2024-01-01T10:00:00'')]"
    by (simp add: replay_forward_def events_between_def apply_changes_def ex_defs)
  moreover have "pessoa_to_dict ex_p2
          = [(''id'', JInt 1), (''nome'', JStr ''B''), (''cpf'', JStr ''111''),
             (''data_nascimento'', JStr ''1990-05-17''), (''version'', JInt 2),
             (''deleted'', JBool False), (''updated_at'', JStr ''2024-01-02T10:00:00'')]"
    by (simp add: pessoa_to_dict_def opt_iso_def ex_iso ex_defs)
  moreover have "snapshot_at_version ex_s2 (p_id ex_p2) 1 = Inr (state_after ex_e1)"
    by (simp add: snapshot_at_version_def ex_defs)
  moreover have "ex_p2 \<in> set (pessoas ex_s2)" "version ex_p2 = 2" by (simp_all add: ex_defs)
  ultimately show ?thesis using ex_reachable(2) by simp
qed

text \<open>
  Claim C5, amended. In every store the handlers can reach, for every person and every
  version \<open>v\<close> from 1 to the current version, the snapshot at \<open>v\<close> exists, and
  \<open>replay_forward\<close> from \<open>v\<close> to the current version over it agrees with the person's
  current snapshot on every key except \<^verbatim>\<open>version\<close> and \<^verbatim>\<open>updated_at\<close>; these two
  keep the values of the snapshot at \<open>v\<close> (the version is \<open>v\<close>).
\<close>

theorem replay_from_snapshot:
  assumes "reachable s" and "p \<in> set (pessoas s)" and "1 \<le> v" and "v \<le> version p"
  shows "\<exists>snap. snapshot_at_version s (p_id p) v = Inr snap \<and>
           (\<forall>k. k \<noteq> ''version'' \<and> k \<noteq> ''updated_at'' \<longrightarrow>
              map_of (replay_forward s (p_id p) v (version p) snap) k = map_of (pessoa_to_dict p) k) \<and>
           map_of (replay_forward s (p_id p) v (version p) snap) ''version'' = Some (JInt v) \<and>
           map_of (replay_forward s (p_id p) v (version p) snap) ''updated_at''
             = map_of snap ''updated_at''"
proof -
  from reachable_invariants [OF assms(1)] have "log_invariant s" "replay_invariant s" by simp_all
  then show ?thesis using assms(2-4) by (rule snapshot_replay_under_invariants)
qed

theorem replay_from_snapshot_witness:
  "reachable ex_s3 \<and> ex_p3 \<in> set (pessoas ex_s3) \<and> (1::int) \<le> 1 \<and> 1 \<le> version ex_p3 \<and>
   (\<exists>snap. snapshot_at_version ex_s3 (p_id ex_p3) 1 = Inr snap \<and>
      map_of (replay_forward ex_s3 (p_id ex_p3) 1 (version ex_p3) snap) ''nome''
        = map_of (pessoa_to_dict ex_p3) ''nome'' \<and>
      map_of (replay_forward ex_s3 (p_id ex_p3) 1 (version ex_p3) snap) ''cpf''
        = map_of (pessoa_to_dict ex_p3) ''cpf'' \<and>
      map_of (replay_forward ex_s3 (p_id ex_p3) 1 (version ex_p3) snap) ''version''
        = Some (JInt 1))"
proof -
  have h: "ex_p3 \<in> set (pessoas ex_s3)" "(1::int) \<le> 1" "1 \<le> version ex_p3"
    by (simp_all add: ex_defs)
  from replay_from_snapshot [OF ex_reachable(3) h] obtain snap where
    "snapshot_at_version ex_s3 (p_id ex_p3) 1 = Inr snap"
    "\<forall>k. k \<noteq> ''version'' \<and> k \<noteq> ''updated_at'' \<longrightarrow>
        map_of (replay_forward ex_s3 (p_id ex_p3) 1 (version ex_p3) snap) k
          = map_of (pessoa_to_dict ex_p3) k"
    "map_of (replay_forward ex_s3 (p_id ex_p3) 1 (version ex_p3) snap) ''version'' = Some (JInt 1)"
    by blast
  then have "snapshot_at_version ex_s3 (p_id ex_p3) 1 = Inr snap \<and>
      map_of (replay_forward ex_s3 (p_id ex_p3) 1 (version ex_p3) snap) ''nome''
        = map_of (pessoa_to_dict ex_p3) ''nome'' \<and>
      map_of (replay_forward ex_s3 (p_id ex_p3) 1 (version ex_p3) snap) ''cpf''
        = map_of (pessoa_to_dict ex_p3) ''cpf'' \<and>
      map_of (replay_forward ex_s3 (p_id ex_p3) 1 (version ex_p3) snap) ''version''
        = Some (JInt 1)"
    by simp
  then show ?thesis using ex_reachable(3) h by blast
qed

subsection \<open>The unique index on the CPF\<close>
















subsection \<open>The direct path on the stores the handlers reach\<close>




end
